theory Spec2Isabelle
  imports Main "HOL-Library.Char_ord" "HOL-Library.List_Lexorder"
begin

section \<open>The storage engine of minikeystore\<close>

text \<open>
  A shallow embedding of package \<open>storage\<close>: the item, the store with its sorted index,
  the type-checked accessor \<open>checkkey\<close>, the index maintenance \<open>updateIndex\<close> and the
  public operations \<open>Get\<close>, \<open>Set\<close>, \<open>Delete\<close>, \<open>Append\<close>, \<open>Pop\<close>, \<open>MapGet\<close>,
  \<open>MapSet\<close>, \<open>MapDelete\<close> and \<open>GetIndex\<close>.

  A Go string is a sequence of bytes and is compared byte by byte; \<open>string\<close> with the
  lexicographic order on lists of 8-bit characters is the same order. The lock of the
  store is left out: every operation is modelled as one atomic step.

  Slices and maps are references in Go, and the store keeps the slices and maps its
  callers hand it and hands out its own index slice. So the model has a memory of
  backing arrays and of map objects that the store and its caller share; a slice is a
  window on a backing array, and \<open>append\<close> writes in place when the capacity allows.
\<close>

subsection \<open>Data model\<close>

text \<open>
  A slice: the backing array \<open>arr\<close> (its address), the position \<open>off\<close> of the first
  element in the array, the length and the capacity. A map value is the address of a
  map object.
\<close>

record slice =
  arr :: nat
  off :: nat
  len :: nat
  cap :: nat

text \<open>
  \<open>Item\<close> is the struct of the source: three payload fields and the type tag, a string.
  A slice and a map of Go can be \<open>nil\<close>, which the source tests for, so both payloads are
  options with \<open>None\<close> for \<open>nil\<close>.
\<close>

record Item =
  stringValue :: string
  listValue :: "slice option"
  mapValue :: "nat option"
  Type :: string

text \<open>
  The state of the program. \<open>items\<close> and \<open>index\<close> are the fields of the struct
  \<open>Storage\<close>: \<open>items\<close> maps a key to its item (the source holds a pointer to an item
  that no other key shares, so a write through the pointer is a write to the entry of the
  key), \<open>index\<close> is the slice of keys. \<open>arrays\<close> and \<open>hmaps\<close> are the memory: the
  backing arrays and the map objects, by address; an allocation takes the next address.
  \<open>growth\<close> is the policy of the run-time system for the capacity of the array that
  \<open>append\<close> allocates when the old one is full (from the old capacity and the length
  needed); the source does not fix it, so it is a parameter of the state.
\<close>

record Storage =
  items :: "string \<rightharpoonup> Item"
  index :: slice
  arrays :: "string list list"
  hmaps :: "(string \<rightharpoonup> string) list"
  growth :: "nat \<Rightarrow> nat \<Rightarrow> nat"

text \<open>
  The errors, named by kind; each is one \<open>fmt.Errorf\<close> message of the source and carries
  what the message prints. \<open>IndexOutOfRange i n\<close> is the run-time panic of reading
  position \<open>i\<close> of a slice of length \<open>n\<close>.
\<close>

datatype error =
    KeyNotFound string
  | TypeMismatch string string
  | ItemDoesNotExist
  | UnknownType
  | UnsupportedValueType
  | EmptyList
  | MapKeyNotFound string
  | IndexOutOfRange nat nat

text \<open>
  The dynamic values \<open>Set\<close> can be handed (\<open>interface{}\<close>). A \<open>basic\<close> value is a value
  that is no container: a string, a bool, an int or the untyped nil. A \<open>dyn\<close> value is a
  basic value, a \<open>[]string\<close> (a slice, or nil), a \<open>map[string]string\<close> (the address of
  a map object, or nil), a \<open>[]interface{}\<close> or a \<open>map[string]interface{}\<close>. The last
  two are only read by \<open>Set\<close>, which copies them, so they are given by their elements;
  the elements are basic values (containers nested in containers and floating-point
  numbers are not modelled).
\<close>

datatype basic = BString string | BBool bool | BInt int | BNil

datatype dyn =
    Basic basic
  | StrSlice "slice option"
  | StrMap "nat option"
  | AnySlice "basic list option"
  | AnyMap "(string \<rightharpoonup> basic) option"


text \<open>
  The steps of a client: the nine operations of the store, and the allocation of a
  \<open>[]string\<close> or a \<open>map[string]string\<close> of its own, which it can then hand to
  \<open>Set\<close>. A slice or map in an operation is a reference into the memory of the state
  the operation is applied to.
\<close>

datatype operation =
    OpSet string dyn
  | OpDelete string
  | OpAppend string string
  | OpPop string
  | OpMapGet string string
  | OpMapSet string string string
  | OpMapDelete string string
  | OpGet string
  | OpGetIndex string
  | OpNewSlice "string list"
  | OpNewMap "string \<rightharpoonup> string"

subsection \<open>Library functions the source calls\<close>

text \<open>
  \<open>sort.Search n f\<close>: the binary search of the standard library, the least \<open>i\<close> in
  \<open>[0, n]\<close> with \<open>f i\<close> when \<open>f\<close> is monotone. The source calls it through
  \<open>sort.StringSlice.Search\<close>, with \<open>f i = (a[i] >= x)\<close>; the loop reads \<open>a\<close> only at
  positions below \<open>n\<close>.
\<close>

function search_loop :: "(nat \<Rightarrow> bool) \<Rightarrow> nat \<Rightarrow> nat \<Rightarrow> nat" where
  "search_loop f i j =
     (if i < j then
        (let h = (i + j) div 2 in
         if \<not> f h then search_loop f (h + 1) j else search_loop f i h)
      else i)"
  by pat_completeness auto
termination
  by (relation "measure (\<lambda>(f, i, j). j - i)") auto

definition Search :: "string list \<Rightarrow> string \<Rightarrow> nat" where
  "Search a x = search_loop (\<lambda>i. a ! i \<ge> x) 0 (length a)"

text \<open>\<open>strings.Split s sep\<close> for a separator of one byte: the pieces between separators.\<close>

fun Split :: "string \<Rightarrow> char \<Rightarrow> string list" where
  "Split [] sep = [[]]"
| "Split (c # cs) sep =
     (if c = sep then [] # Split cs sep
      else (case Split cs sep of [] \<Rightarrow> [[c]] | p # ps \<Rightarrow> (c # p) # ps))"

text \<open>
  Modelled from the spec: the matcher \<open>glob.Glob\<close> of the imported package
  \<open>github.com/ryanuber/go-glob\<close>, which is not among the sources. The spec: the
  character \<open>*\<close> matches any sequence of zero or more characters; matching is
  case-sensitive and anchored at both ends of the key.
\<close>

fun Glob :: "string \<Rightarrow> string \<Rightarrow> bool" where
  "Glob [] subj = (subj = [])"
| "Glob (p # ps) [] = (p = CHR ''*'' \<and> Glob ps [])"
| "Glob (p # ps) (c # cs) =
     (if p = CHR ''*'' then Glob ps (c # cs) \<or> Glob (p # ps) cs
      else p = c \<and> Glob ps cs)"

text \<open>
  \<open>fmt.Sprintf("%s", v)\<close> on a basic value: a string is printed as it is, any other
  value as the formatter's bad-verb text \<open>%!s(type=value)\<close>.
\<close>

function dec_digits :: "nat \<Rightarrow> string" where
  "dec_digits n =
     (if n < 10 then [''0123456789'' ! n]
      else dec_digits (n div 10) @ [''0123456789'' ! (n mod 10)])"
  by pat_completeness auto
termination
  by (relation "measure (\<lambda>n. n)") auto

definition Itoa :: "int \<Rightarrow> string" where
  "Itoa n = (if n < 0 then ''-'' @ dec_digits (nat (- n)) else dec_digits (nat n))"

fun Sprintf_s :: "basic \<Rightarrow> string" where
  "Sprintf_s (BString x) = x"
| "Sprintf_s (BBool b) = ''%!s(bool='' @ (if b then ''true'' else ''false'') @ '')''"
| "Sprintf_s (BInt n) = ''%!s(int='' @ Itoa n @ '')''"
| "Sprintf_s BNil = ''%!s(<nil>)''"

subsection \<open>Slices and memory\<close>

text \<open>
  The elements of a slice, and what the language guarantees of every slice value: its
  array exists and holds the whole capacity.
\<close>

definition contents :: "Storage \<Rightarrow> slice \<Rightarrow> string list" where
  "contents s sl = take (len sl) (drop (off sl) (arrays s ! arr sl))"

definition valid :: "Storage \<Rightarrow> slice \<Rightarrow> bool" where
  "valid s sl \<longleftrightarrow>
     arr sl < length (arrays s) \<and> len sl \<le> cap sl \<and>
     off sl + cap sl \<le> length (arrays s ! arr sl)"

text \<open>
  \<open>alloc s xs\<close> allocates a backing array with the elements \<open>xs\<close> and returns the slice
  of all of it: \<open>make([]string, n)\<close> with \<open>xs\<close> the \<open>n\<close> empty strings, and a literal
  \<open>[]string{...}\<close>.
\<close>

definition alloc :: "Storage \<Rightarrow> string list \<Rightarrow> slice \<times> Storage" where
  "alloc s xs =
     (\<lparr>arr = length (arrays s), off = 0, len = length xs, cap = length xs\<rparr>,
      s\<lparr>arrays := arrays s @ [xs]\<rparr>)"

text \<open>
  \<open>append(sl, xs...)\<close>: when the capacity holds the new length the elements are written
  into the backing array of \<open>sl\<close>, behind its last element, and the result is the same
  window made longer; otherwise a new array is allocated, of the capacity the run-time
  system picks (at least the new length), and the old array is left as it is. The
  elements \<open>xs\<close> are read before anything is written, as the copy of \<open>append\<close> does
  when source and destination overlap.
\<close>

definition append_slice :: "Storage \<Rightarrow> slice \<Rightarrow> string list \<Rightarrow> slice \<times> Storage" where
  "append_slice s sl xs =
     (let n = len sl + length xs in
      if n \<le> cap sl then
        (let a = arrays s ! arr sl; p = off sl + len sl in
         (sl\<lparr>len := n\<rparr>,
          s\<lparr>arrays := (arrays s)[arr sl := take p a @ xs @ drop (p + length xs) a]\<rparr>))
      else
        (let c = max n (growth s (cap sl) n) in
         (\<lparr>arr = length (arrays s), off = 0, len = n, cap = c\<rparr>,
          s\<lparr>arrays := arrays s @ [contents s sl @ xs @ replicate (c - n) []]\<rparr>)))"

text \<open>The slice expressions \<open>sl[:i]\<close> and \<open>sl[i:]\<close>.\<close>

definition slice_to :: "slice \<Rightarrow> nat \<Rightarrow> slice" where
  "slice_to sl i = sl\<lparr>len := i\<rparr>"

definition slice_from :: "slice \<Rightarrow> nat \<Rightarrow> slice" where
  "slice_from sl i = sl\<lparr>off := off sl + i, len := len sl - i, cap := cap sl - i\<rparr>"

text \<open>\<open>make(map[string]string)\<close> and a map literal: a new map object.\<close>

definition alloc_map :: "Storage \<Rightarrow> (string \<rightharpoonup> string) \<Rightarrow> nat \<times> Storage" where
  "alloc_map s m = (length (hmaps s), s\<lparr>hmaps := hmaps s @ [m]\<rparr>)"



subsection \<open>The store\<close>

text \<open>\<open>New\<close>: no items, and an index made with \<open>make([]string, 0)\<close>.\<close>

definition New :: "(nat \<Rightarrow> nat \<Rightarrow> nat) \<Rightarrow> Storage" where
  "New g =
     \<lparr>items = Map.empty, index = \<lparr>arr = 0, off = 0, len = 0, cap = 0\<rparr>,
      arrays = [[]], hmaps = [], growth = g\<rparr>"

text \<open>
  \<open>updateIndex\<close>: the position of the key by binary search, then an insertion or a
  removal there, by \<open>append\<close> on the index slice cut at the position. Both branches test
  the position against the length of the index before they read the index at it.
\<close>

definition updateIndex :: "Storage \<Rightarrow> string \<Rightarrow> bool \<Rightarrow> Storage" where
  "updateIndex s key add =
     (if add then
        (let i = Search (contents s (index s)) key in
         if i = len (index s) then
           (case append_slice s (index s) [key] of (sl, s1) \<Rightarrow> s1\<lparr>index := sl\<rparr>)
         else if contents s (index s) ! i = key then s
         else
           (case alloc s [key] of (lit, s1) \<Rightarrow>
            case append_slice s1 lit (contents s1 (slice_from (index s1) i)) of (inner, s2) \<Rightarrow>
            case append_slice s2 (slice_to (index s2) i) (contents s2 inner) of (sl, s3) \<Rightarrow>
              s3\<lparr>index := sl\<rparr>))
      else
        (let i = Search (contents s (index s)) key in
         if i = len (index s) then s
         else if contents s (index s) ! i \<noteq> key then s
         else
           (case append_slice s (slice_to (index s) i)
                   (contents s (slice_from (index s) (i + 1))) of
              (sl, s1) \<Rightarrow> s1\<lparr>index := sl\<rparr>)))"

text \<open>
  \<open>checkkey\<close> returns the item (or the error) and the state as it leaves it: an absent
  key with \<open>create\<close> is entered in the index and given a zero item of the expected
  type.
\<close>

definition checkkey :: "Storage \<Rightarrow> string \<Rightarrow> string \<Rightarrow> bool \<Rightarrow> (error + Item) \<times> Storage" where
  "checkkey s key expectedType create =
     (case items s key of
        None \<Rightarrow>
          if \<not> create then (Inl (KeyNotFound key), s)
          else
            (let s1 = updateIndex s key True;
                 i = \<lparr>stringValue = [], listValue = None, mapValue = None, Type = expectedType\<rparr>
             in (Inr i, s1\<lparr>items := (items s1)(key \<mapsto> i)\<rparr>))
      | Some i \<Rightarrow>
          if Type i \<noteq> expectedType then (Inl (TypeMismatch (Type i) expectedType), s)
          else (Inr i, s))"


text \<open>
  \<open>Set\<close>: the type switch builds the item from the zero item. A \<open>[]string\<close> and a
  \<open>map[string]string\<close> are kept as they are handed in (the same slice, the same map
  object); a \<open>[]interface{}\<close> and a \<open>map[string]interface{}\<close> are copied into a new
  array or map object of the \<open>%s\<close> texts of their elements. The result is the error
  (\<open>None\<close> for \<open>nil\<close>) and the state.
\<close>

definition zero_Item :: Item where
  "zero_Item = \<lparr>stringValue = [], listValue = None, mapValue = None, Type = []\<rparr>"

fun Set_item :: "Storage \<Rightarrow> dyn \<Rightarrow> (Item \<times> Storage) option" where
  "Set_item s (Basic (BString v)) =
     Some (zero_Item\<lparr>Type := ''string'', stringValue := v\<rparr>, s)"
| "Set_item s (StrSlice v) = Some (zero_Item\<lparr>Type := ''list'', listValue := v\<rparr>, s)"
| "Set_item s (StrMap v) = Some (zero_Item\<lparr>Type := ''map'', mapValue := v\<rparr>, s)"
| "Set_item s (AnySlice v) =
     (case alloc s (map Sprintf_s (case v of None \<Rightarrow> [] | Some xs \<Rightarrow> xs)) of
        (sl, s1) \<Rightarrow> Some (zero_Item\<lparr>Type := ''list'', listValue := Some sl\<rparr>, s1))"
| "Set_item s (AnyMap v) =
     (case alloc_map s (case v of None \<Rightarrow> Map.empty
                         | Some m \<Rightarrow> (\<lambda>k. map_option Sprintf_s (m k))) of
        (m1, s1) \<Rightarrow> Some (zero_Item\<lparr>Type := ''map'', mapValue := Some m1\<rparr>, s1))"
| "Set_item s (Basic b) = None"

definition Set :: "Storage \<Rightarrow> string \<Rightarrow> dyn \<Rightarrow> error option \<times> Storage" where
  "Set s key v =
     (case Set_item s v of
        None \<Rightarrow> (Some UnsupportedValueType, s)
      | Some (i, s0) \<Rightarrow>
          (let s1 = (if items s0 key = None then updateIndex s0 key True else s0)
           in (None, s1\<lparr>items := (items s1)(key \<mapsto> i)\<rparr>)))"

definition Delete :: "Storage \<Rightarrow> string \<Rightarrow> Storage" where
  "Delete s key =
     (let s1 = (if items s key \<noteq> None then updateIndex s key False else s)
      in s1\<lparr>items := (items s1)(key := None)\<rparr>)"

text \<open>
  \<open>Append\<close>: a nil list is replaced by \<open>make([]string, 0)\<close>, then the value is appended
  to the list of the item.
\<close>

definition Append :: "Storage \<Rightarrow> string \<Rightarrow> string \<Rightarrow> error option \<times> Storage" where
  "Append s key val =
     (case checkkey s key ''list'' True of
        (Inl err, s1) \<Rightarrow> (Some err, s1)
      | (Inr i, s1) \<Rightarrow>
          (case (case listValue i of None \<Rightarrow> alloc s1 [] | Some l \<Rightarrow> (l, s1)) of
             (l, s2) \<Rightarrow>
               (case append_slice s2 l [val] of
                  (l1, s3) \<Rightarrow>
                    (None, s3\<lparr>items := (items s3)(key \<mapsto> i\<lparr>listValue := Some l1\<rparr>)\<rparr>))))"

text \<open>
  \<open>Pop\<close>: the length of a nil list is 0. The value is the last element, the list is cut
  by one; nothing is written to the array. The source writes the shortened list through
  the pointer \<open>checkkey\<close> returned, which is the entry of the key.
\<close>

definition Pop :: "Storage \<Rightarrow> string \<Rightarrow> (error + string) \<times> Storage" where
  "Pop s key =
     (case checkkey s key ''list'' False of
        (Inl err, s1) \<Rightarrow> (Inl err, s1)
      | (Inr i, s1) \<Rightarrow>
          (case listValue i of
             None \<Rightarrow> (Inl EmptyList, s1)
           | Some l \<Rightarrow>
               if len l = 0 then (Inl EmptyList, s1)
               else (Inr (contents s1 l ! (len l - 1)),
                     s1\<lparr>items := (items s1)(key \<mapsto>
                           i\<lparr>listValue := Some (slice_to l (len l - 1))\<rparr>)\<rparr>)))"

definition MapGet :: "Storage \<Rightarrow> string \<Rightarrow> string \<Rightarrow> (error + string) \<times> Storage" where
  "MapGet s key mkey =
     (case checkkey s key ''map'' False of
        (Inl err, s1) \<Rightarrow> (Inl err, s1)
      | (Inr i, s1) \<Rightarrow>
          (case mapValue i of
             None \<Rightarrow> (Inl (MapKeyNotFound mkey), s1)
           | Some m \<Rightarrow>
               (case (hmaps s1 ! m) mkey of
                  Some val \<Rightarrow> (Inr val, s1)
                | None \<Rightarrow> (Inl (MapKeyNotFound mkey), s1))))"

text \<open>
  \<open>MapSet\<close> and \<open>MapDelete\<close>: a nil map is replaced by a new map object, then the map
  object of the item is written.
\<close>

definition MapSet :: "Storage \<Rightarrow> string \<Rightarrow> string \<Rightarrow> string \<Rightarrow> error option \<times> Storage" where
  "MapSet s key mkey val =
     (case checkkey s key ''map'' True of
        (Inl err, s1) \<Rightarrow> (Some err, s1)
      | (Inr i, s1) \<Rightarrow>
          (case (case mapValue i of None \<Rightarrow> alloc_map s1 Map.empty | Some m0 \<Rightarrow> (m0, s1)) of
             (m, s2) \<Rightarrow>
               (None, s2\<lparr>hmaps := (hmaps s2)[m := (hmaps s2 ! m)(mkey \<mapsto> val)],
                         items := (items s2)(key \<mapsto> i\<lparr>mapValue := Some m\<rparr>)\<rparr>)))"

definition MapDelete :: "Storage \<Rightarrow> string \<Rightarrow> string \<Rightarrow> error option \<times> Storage" where
  "MapDelete s key mkey =
     (case checkkey s key ''map'' False of
        (Inl err, s1) \<Rightarrow> (Some err, s1)
      | (Inr i, s1) \<Rightarrow>
          (case (case mapValue i of None \<Rightarrow> alloc_map s1 Map.empty | Some m0 \<Rightarrow> (m0, s1)) of
             (m, s2) \<Rightarrow>
               (None, s2\<lparr>hmaps := (hmaps s2)[m := (hmaps s2 ! m)(mkey := None)],
                         items := (items s2)(key \<mapsto> i\<lparr>mapValue := Some m\<rparr>)\<rparr>)))"

text \<open>
  \<open>GetIndex\<close>. For the pattern \<open>*\<close> the result is the index slice of the store itself,
  not a copy. The exact-match branch reads the index at the position the search returns
  without testing the position against the length: when the position is the length, the
  read panics. The other results are new slices: \<open>make([]string, 0)\<close>, a literal, or
  the slice the loop appends the matching keys to.
\<close>

fun collect :: "Storage \<Rightarrow> slice \<Rightarrow> string \<Rightarrow> string list \<Rightarrow> slice \<times> Storage" where
  "collect s res search [] = (res, s)"
| "collect s res search (val # vals) =
     (if Glob search val then
        (case append_slice s res [val] of (res1, s1) \<Rightarrow> collect s1 res1 search vals)
      else collect s res search vals)"

definition GetIndex :: "Storage \<Rightarrow> string \<Rightarrow> (error + slice) \<times> Storage" where
  "GetIndex s search =
     (if search = ''*'' then (Inr (index s), s)
      else
        (let parts = Split search (CHR ''*'') in
         if length parts = 1 then
           (let i = Search (contents s (index s)) search in
            if \<not> i < len (index s) then (Inl (IndexOutOfRange i (len (index s))), s)
            else if contents s (index s) ! i \<noteq> search then
              (case alloc s [] of (sl, s1) \<Rightarrow> (Inr sl, s1))
            else (case alloc s [contents s (index s) ! i] of (sl, s1) \<Rightarrow> (Inr sl, s1)))
         else
           (case alloc s [] of (res, s1) \<Rightarrow>
            case collect s1 res search (contents s1 (index s1)) of
              (res1, s2) \<Rightarrow> (Inr res1, s2))))"

text \<open>The state after one step of a client, and after a sequence of them.\<close>

fun step :: "Storage \<Rightarrow> operation \<Rightarrow> Storage" where
  "step s (OpSet k v) = snd (Set s k v)"
| "step s (OpDelete k) = Delete s k"
| "step s (OpAppend k v) = snd (Append s k v)"
| "step s (OpPop k) = snd (Pop s k)"
| "step s (OpMapGet k mk) = snd (MapGet s k mk)"
| "step s (OpMapSet k mk v) = snd (MapSet s k mk v)"
| "step s (OpMapDelete k mk) = snd (MapDelete s k mk)"
| "step s (OpGet k) = s"
| "step s (OpGetIndex p) = snd (GetIndex s p)"
| "step s (OpNewSlice xs) = snd (alloc s xs)"
| "step s (OpNewMap m) = snd (alloc_map s m)"

definition run :: "(nat \<Rightarrow> nat \<Rightarrow> nat) \<Rightarrow> operation list \<Rightarrow> Storage" where
  "run g ops = foldl step (New g) ops"

text \<open>A growth policy for concrete runs: the capacity doubles.\<close>

definition doubling :: "nat \<Rightarrow> nat \<Rightarrow> nat" where
  "doubling c n = 2 * c"

subsection \<open>Invariants and proof devices\<close>

text \<open>
  \<open>extends_except A s s'\<close>: from \<open>s\<close> to \<open>s'\<close> the memory of arrays has only grown, no
  array has changed its size, and only the arrays at the addresses in \<open>A\<close> may have been
  written.
\<close>

definition extends_except :: "nat set \<Rightarrow> Storage \<Rightarrow> Storage \<Rightarrow> bool" where
  "extends_except A s s' \<longleftrightarrow>
     length (arrays s) \<le> length (arrays s') \<and>
     (\<forall>a < length (arrays s).
        length (arrays s' ! a) = length (arrays s ! a) \<and>
        (a \<notin> A \<longrightarrow> arrays s' ! a = arrays s ! a))"

text \<open>
  The keys of the index after \<open>updateIndex\<close>, as a function of the keys before: what
  \<open>updateIndex\<close> leaves in the index slice (\<open>updateIndex_facts\<close> below).
\<close>

definition updated_keys :: "string list \<Rightarrow> string \<Rightarrow> bool \<Rightarrow> string list" where
  "updated_keys a key add =
     (let i = Search a key in
      if add then
        (if i = length a then a @ [key]
         else if a ! i = key then a
         else take i a @ ([key] @ drop i a))
      else
        (if i = length a then a
         else if a ! i \<noteq> key then a
         else take i a @ drop (i + 1) a))"

text \<open>
  The invariant of the store: the index is strictly ascending (sorted, no duplicates)
  and holds exactly the keys of the mapping.
\<close>

definition index_inv :: "Storage \<Rightarrow> bool" where
  "index_inv s \<longleftrightarrow>
     sorted_wrt (<) (contents s (index s)) \<and> set (contents s (index s)) = dom (items s)"

text \<open>
  \<open>wf\<close>: the index and the lists of the items are slices of the memory, which the
  language guarantees. \<open>apart\<close>: no list of an item lies in the backing array of the
  index.
\<close>

definition wf :: "Storage \<Rightarrow> bool" where
  "wf s \<longleftrightarrow>
     valid s (index s) \<and>
     (\<forall>k i l. items s k = Some i \<longrightarrow> listValue i = Some l \<longrightarrow> valid s l)"

definition apart :: "Storage \<Rightarrow> bool" where
  "apart s \<longleftrightarrow>
     (\<forall>k i l. items s k = Some i \<longrightarrow> listValue i = Some l \<longrightarrow> arr l \<noteq> arr (index s))"

text \<open>
  \<open>unshared s x\<close>: a slice that the step \<open>x\<close> hands to \<open>Set\<close> is a slice of the memory
  (as every slice value is) whose backing array is not the backing array of the index.
  Every other step is unshared. \<open>all_unshared s xs\<close>: each step of the sequence is
  unshared in the state it is applied to.
\<close>

fun unshared :: "Storage \<Rightarrow> operation \<Rightarrow> bool" where
  "unshared s (OpSet k (StrSlice (Some l))) = (valid s l \<and> arr l \<noteq> arr (index s))"
| "unshared s x = True"

fun all_unshared :: "Storage \<Rightarrow> operation list \<Rightarrow> bool" where
  "all_unshared s [] = True"
| "all_unshared s (x # xs) = (unshared s x \<and> all_unshared (step s x) xs)"

definition good :: "Storage \<Rightarrow> bool" where
  "good s \<longleftrightarrow> wf s \<and> apart s \<and> index_inv s"

definition item_ok :: "Storage \<Rightarrow> Item \<Rightarrow> bool" where
  "item_ok s i \<longleftrightarrow> (\<forall>l. listValue i = Some l \<longrightarrow> valid s l \<and> arr l \<noteq> arr (index s))"


text \<open>
  The spec's reading of a pattern, stated as a relation: the empty pattern matches the
  empty key, a \<open>*\<close> matches any (possibly empty) run of characters before a match of the
  rest, any other character matches itself. \<open>Glob\<close> decides this relation
  (\<open>Glob_iff\<close> below).
\<close>

inductive glob_matches :: "string \<Rightarrow> string \<Rightarrow> bool" where
  empty: "glob_matches [] []"
| star: "glob_matches ps subj \<Longrightarrow> glob_matches (CHR ''*'' # ps) (skipped @ subj)"
| char: "p \<noteq> CHR ''*'' \<Longrightarrow> glob_matches ps subj \<Longrightarrow> glob_matches (p # ps) (p # subj)"

subsection \<open>Concrete runs\<close>

text \<open>
  A client that allocates the list \<open>[x, y]\<close> (at address 1, after the array of the
  empty index) and stores it under \<open>b\<close>, stores a string under \<open>a\<close> and an empty
  sequence under \<open>e\<close>.
\<close>

definition sample_list :: slice where
  "sample_list = \<lparr>arr = 1, off = 0, len = 2, cap = 2\<rparr>"

definition sample_ops :: "operation list" where
  "sample_ops =
     [OpNewSlice [''x'', ''y''],
      OpSet ''b'' (StrSlice (Some sample_list)),
      OpSet ''a'' (Basic (BString ''hello'')),
      OpSet ''e'' (AnySlice (Some []))]"

definition sample_store :: Storage where
  "sample_store = run doubling sample_ops"

text \<open>
  A client that hands the index back to the store. After \<open>leak_ops\<close> the index is
  \<open>[a, b]\<close> with room for a third key; \<open>GetIndex("*")\<close> returns that slice
  (\<open>leaked_index\<close>), the client stores it under \<open>k\<close>, pops its two elements and
  appends \<open>zzz\<close>, which \<open>append\<close> writes into the first cell of the array of the index.
\<close>

definition leak_ops :: "operation list" where
  "leak_ops =
     [OpSet ''a'' (Basic (BString ''v'')), OpSet ''b'' (Basic (BString ''v'')),
      OpSet ''c'' (Basic (BString ''v'')), OpDelete ''c'']"

definition leaked_index :: slice where
  "leaked_index = \<lparr>arr = 3, off = 0, len = 2, cap = 4\<rparr>"

definition aliased_ops :: "operation list" where
  "aliased_ops =
     leak_ops @
     [OpGetIndex ''*'',
      OpSet ''k'' (StrSlice (Some leaked_index)),
      OpPop ''k'', OpPop ''k'', OpAppend ''k'' ''zzz'']"

definition aliased_store :: Storage where
  "aliased_store = run doubling aliased_ops"

text \<open>
  A store holding the keys of the spec's index scenario, entered out of order by three
  different operations.
\<close>

definition glob_ops :: "operation list" where
  "glob_ops =
     [OpSet ''ccc:aaa:bbb'' (Basic (BString ''v'')),
      OpAppend ''aaa'' ''v'',
      OpMapSet ''abc'' ''mk'' ''v'',
      OpSet ''aaa:bbb:ccc'' (StrSlice None)]"

definition glob_store :: Storage where
  "glob_store = run doubling glob_ops"

section \<open>Binary search\<close>

declare search_loop.simps [simp del] dec_digits.simps [simp del]

lemma search_loop_bounds:
  "i \<le> j \<Longrightarrow> i \<le> search_loop f i j \<and> search_loop f i j \<le> j"
proof (induction f i j rule: search_loop.induct)
  case (1 f i j)
  show ?case
  proof (cases "i < j")
    case False
    then have "search_loop f i j = i" by (subst search_loop.simps) simp
    with 1(3) show ?thesis by simp
  next
    case True
    define h where "h = (i + j) div 2"
    have hb: "i \<le> h" "h < j" using True by (simp_all add: h_def)
    show ?thesis
    proof (cases "f h")
      case True
      have "search_loop f i j = search_loop f i h"
        using True \<open>i < j\<close> by (subst search_loop.simps) (simp add: h_def Let_def)
      with 1(2) [OF \<open>i < j\<close> h_def] True hb show ?thesis by simp
    next
      case False
      have "search_loop f i j = search_loop f (h + 1) j"
        using False \<open>i < j\<close> by (subst search_loop.simps) (simp add: h_def Let_def)
      with 1(1) [OF \<open>i < j\<close> h_def] False hb show ?thesis by simp
    qed
  qed
qed

lemma search_loop_split:
  assumes "\<And>k l. k \<le> l \<Longrightarrow> l < n \<Longrightarrow> f k \<Longrightarrow> f l"
    and "i \<le> j" and "j \<le> n"
    and "\<And>k. k < i \<Longrightarrow> \<not> f k"
    and "\<And>k. j \<le> k \<Longrightarrow> k < n \<Longrightarrow> f k"
  shows "(\<forall>k < search_loop f i j. \<not> f k) \<and> (\<forall>k. search_loop f i j \<le> k \<and> k < n \<longrightarrow> f k)"
  using assms
proof (induction f i j rule: search_loop.induct)
  case (1 f i j)
  show ?case
  proof (cases "i < j")
    case False
    then have "search_loop f i j = i" by (subst search_loop.simps) simp
    moreover have "i = j" using False 1(4) by simp
    ultimately show ?thesis using 1(6,7) by simp
  next
    case True
    define h where "h = (i + j) div 2"
    have hb: "i \<le> h" "h < j" using True by (simp_all add: h_def)
    show ?thesis
    proof (cases "f h")
      case True
      have "(\<forall>k<search_loop f i h. \<not> f k) \<and> (\<forall>k. search_loop f i h \<le> k \<and> k < n \<longrightarrow> f k)"
      proof (rule 1(2) [OF \<open>i < j\<close> h_def])
        show "\<not> \<not> f h" using True by simp
        show "i \<le> h" by (rule hb)
        show "h \<le> n" using hb 1(5) by simp
        show "\<And>k l. k \<le> l \<Longrightarrow> l < n \<Longrightarrow> f k \<Longrightarrow> f l" by (rule 1(3))
        show "\<And>k. k < i \<Longrightarrow> \<not> f k" by (rule 1(6))
        show "\<And>k. h \<le> k \<Longrightarrow> k < n \<Longrightarrow> f k" using True 1(3) by blast
      qed
      moreover have "search_loop f i j = search_loop f i h"
        using True \<open>i < j\<close> by (subst search_loop.simps) (simp add: h_def Let_def)
      ultimately show ?thesis by simp
    next
      case False
      have "(\<forall>k<search_loop f (h + 1) j. \<not> f k) \<and> (\<forall>k. search_loop f (h + 1) j \<le> k \<and> k < n \<longrightarrow> f k)"
      proof (rule 1(1) [OF \<open>i < j\<close> h_def])
        show "\<not> f h" by (rule False)
        show "h + 1 \<le> j" using hb by simp
        show "j \<le> n" by (rule 1(5))
        show "\<And>k l. k \<le> l \<Longrightarrow> l < n \<Longrightarrow> f k \<Longrightarrow> f l" by (rule 1(3))
        show "\<And>k. k < h + 1 \<Longrightarrow> \<not> f k"
        proof -
          fix k assume "k < h + 1"
          then have "k \<le> h" by simp
          moreover have "h < n" using hb 1(5) by simp
          ultimately show "\<not> f k" using False 1(3) by blast
        qed
        show "\<And>k. j \<le> k \<Longrightarrow> k < n \<Longrightarrow> f k" by (rule 1(7))
      qed
      moreover have "search_loop f i j = search_loop f (h + 1) j"
        using False \<open>i < j\<close> by (subst search_loop.simps) (simp add: h_def Let_def)
      ultimately show ?thesis by simp
    qed
  qed
qed

lemma Search_le_length: "Search a x \<le> length a"
  using search_loop_bounds [of 0 "length a"] by (simp add: Search_def)

lemma Search_sorted:
  assumes "sorted_wrt (<) a"
  shows "(\<forall>k < Search a x. a ! k < x) \<and> (\<forall>k. Search a x \<le> k \<and> k < length a \<longrightarrow> x \<le> a ! k)"
proof -
  have mono: "\<And>k l. k \<le> l \<Longrightarrow> l < length a \<Longrightarrow> x \<le> a ! k \<Longrightarrow> x \<le> a ! l"
  proof -
    fix k l assume kl: "k \<le> l" "l < length a" "x \<le> a ! k"
    have "a ! k \<le> a ! l"
    proof (cases "k = l")
      case True then show ?thesis by simp
    next
      case False
      with kl have "k < l" by simp
      with assms kl(2) have "a ! k < a ! l" by (simp add: sorted_wrt_nth_less)
      then show ?thesis by simp
    qed
    with kl(3) show "x \<le> a ! l" by (rule order_trans)
  qed
  have "(\<forall>k < search_loop (\<lambda>i. x \<le> a ! i) 0 (length a). \<not> x \<le> a ! k) \<and>
        (\<forall>k. search_loop (\<lambda>i. x \<le> a ! i) 0 (length a) \<le> k \<and> k < length a \<longrightarrow> x \<le> a ! k)"
    by (rule search_loop_split [where n = "length a"]) (use mono in auto)
  then show ?thesis by (simp add: Search_def not_le)
qed

lemma Search_absent:
  assumes "sorted_wrt (<) a"
    and "Search a x = length a \<or> a ! Search a x \<noteq> x"
  shows "x \<notin> set a"
proof
  assume "x \<in> set a"
  then obtain k where k: "k < length a" "a ! k = x" by (auto simp: in_set_conv_nth)
  from Search_sorted [OF assms(1), of x]
  have lo: "\<And>j. j < Search a x \<Longrightarrow> a ! j < x"
    and hi: "\<And>j. Search a x \<le> j \<Longrightarrow> j < length a \<Longrightarrow> x \<le> a ! j" by blast+
  have "\<not> k < Search a x" using lo [of k] k(2) by auto
  then have ge: "Search a x \<le> k" by simp
  then have r: "Search a x < length a" using k(1) by simp
  with assms(2) have ne: "a ! Search a x \<noteq> x" by simp
  then have "Search a x \<noteq> k" using k(2) by auto
  with ge have "Search a x < k" by simp
  then have "a ! Search a x < a ! k" using assms(1) k(1) by (simp add: sorted_wrt_nth_less)
  moreover have "x \<le> a ! Search a x" using hi [of "Search a x"] r by simp
  ultimately show False using k(2) by simp
qed

section \<open>The keys of the index\<close>

lemma updated_keys_add_set: "set (updated_keys a key True) = insert key (set a)"
proof -
  let ?r = "Search a key"
  have le: "?r \<le> length a" by (rule Search_le_length)
  have "set (take ?r a) \<union> set (drop ?r a) = set a"
    by (metis append_take_drop_id set_append)
  then have ins: "set (take ?r a @ ([key] @ drop ?r a)) = insert key (set a)"
    by auto
  have "?r < length a \<Longrightarrow> a ! ?r = key \<Longrightarrow> key \<in> set a"
    by (metis nth_mem)
  then show ?thesis
    using ins le unfolding updated_keys_def Let_def by (auto simp: insert_absorb)
qed

lemma updated_keys_add_sorted:
  assumes "sorted_wrt (<) a"
  shows "sorted_wrt (<) (updated_keys a key True)"
proof -
  let ?r = "Search a key"
  from Search_sorted [OF assms, of key]
  have lo: "\<And>j. j < ?r \<Longrightarrow> a ! j < key"
    and hi: "\<And>j. ?r \<le> j \<Longrightarrow> j < length a \<Longrightarrow> key \<le> a ! j" by blast+
  have le: "?r \<le> length a" by (rule Search_le_length)
  have below: "\<And>x. x \<in> set (take ?r a) \<Longrightarrow> x < key"
  proof -
    fix x assume "x \<in> set (take ?r a)"
    then obtain k where "k < ?r" "x = a ! k"
      using le by (auto simp: in_set_conv_nth)
    then show "x < key" using lo by simp
  qed
  show ?thesis
  proof (cases "?r = length a")
    case True
    then have "\<And>x. x \<in> set a \<Longrightarrow> x < key" using below by simp
    then have "sorted_wrt (<) (a @ [key])" using assms by (simp add: sorted_wrt_append)
    with True show ?thesis by (simp add: updated_keys_def Let_def)
  next
    case False
    then have r: "?r < length a" using le by simp
    show ?thesis
    proof (cases "a ! ?r = key")
      case True
      with False assms show ?thesis by (simp add: updated_keys_def Let_def)
    next
      case ne: False
      have above: "\<And>y. y \<in> set (drop ?r a) \<Longrightarrow> key < y"
      proof -
        fix y assume "y \<in> set (drop ?r a)"
        then obtain k where k0: "k < length a - ?r" and k2: "y = a ! (?r + k)"
          by (auto simp: in_set_conv_nth)
        from k0 have k1: "?r + k < length a" by simp
        have first: "key < a ! ?r" using hi [of ?r] r ne by simp
        show "key < y"
        proof (cases "k = 0")
          case True with first k2 show ?thesis by simp
        next
          case False
          then have "a ! ?r < a ! (?r + k)" using assms k1 by (simp add: sorted_wrt_nth_less)
          with first k2 show ?thesis by simp
        qed
      qed
      have "sorted_wrt (<) (take ?r a)" "sorted_wrt (<) (drop ?r a)"
        using assms by simp_all
      moreover have "\<forall>x\<in>set (take ?r a). \<forall>y\<in>set (drop ?r a). x < y"
        using below above by (meson less_trans)
      ultimately have "sorted_wrt (<) (take ?r a @ ([key] @ drop ?r a))"
        using below above by (auto simp: sorted_wrt_append)
      with False ne show ?thesis by (simp add: updated_keys_def Let_def)
    qed
  qed
qed

lemma filter_absent: "k \<notin> set xs \<Longrightarrow> filter (\<lambda>x. x \<noteq> k) xs = xs"
  by (induction xs) auto

lemma updated_keys_remove:
  assumes "sorted_wrt (<) a"
  shows "updated_keys a key False = filter (\<lambda>x. x \<noteq> key) a"
proof (cases "Search a key = length a \<or> a ! Search a key \<noteq> key")
  case True
  then have "key \<notin> set a" by (rule Search_absent [OF assms])
  then have "filter (\<lambda>x. x \<noteq> key) a = a" by (rule filter_absent)
  moreover have "updated_keys a key False = a"
    using True by (auto simp: updated_keys_def Let_def)
  ultimately show ?thesis by simp
next
  case False
  let ?r = "Search a key"
  have r: "?r < length a" and eq: "a ! ?r = key"
    using False Search_le_length [of a key] by auto
  have split: "a = take ?r a @ key # drop (Suc ?r) a"
    using id_take_nth_drop [OF r] eq by simp
  have "sorted_wrt (<) (take ?r a @ key # drop (Suc ?r) a)"
    using assms split by simp
  then have k1: "key \<notin> set (take ?r a)" and k2: "key \<notin> set (drop (Suc ?r) a)"
    by (auto simp: sorted_wrt_append)
  have "filter (\<lambda>x. x \<noteq> key) a =
      filter (\<lambda>x. x \<noteq> key) (take ?r a @ key # drop (Suc ?r) a)"
    using split by simp
  also have "\<dots> = filter (\<lambda>x. x \<noteq> key) (take ?r a) @ filter (\<lambda>x. x \<noteq> key) (drop (Suc ?r) a)"
    by simp
  also have "\<dots> = take ?r a @ drop (Suc ?r) a"
    using k1 k2 by (simp add: filter_absent)
  finally have "filter (\<lambda>x. x \<noteq> key) a = take ?r a @ drop (Suc ?r) a" .
  moreover have "updated_keys a key False = take ?r a @ drop (Suc ?r) a"
    using r eq by (simp add: updated_keys_def Let_def)
  ultimately show ?thesis by simp
qed

lemma updated_keys_remove_sorted:
  "sorted_wrt (<) a \<Longrightarrow> sorted_wrt (<) (updated_keys a key False)"
  by (simp add: updated_keys_remove sorted_wrt_filter)

lemma updated_keys_remove_set:
  "sorted_wrt (<) a \<Longrightarrow> set (updated_keys a key False) = set a - {key}"
  by (auto simp: updated_keys_remove)

section \<open>Slices and memory\<close>

lemma extends_except_refl: "extends_except A s s"
  by (simp add: extends_except_def)

lemma extends_except_trans:
  assumes "extends_except A s s'" and "extends_except B s' s''"
    and "\<And>b. b \<in> B \<Longrightarrow> b < length (arrays s) \<Longrightarrow> b \<in> A"
  shows "extends_except A s s''"
  using assms unfolding extends_except_def
  by (metis (no_types, lifting) le_trans less_le_trans)

lemma extends_except_mono: "extends_except A s s' \<Longrightarrow> A \<subseteq> B \<Longrightarrow> extends_except B s s'"
  unfolding extends_except_def by blast

lemma extends_except_valid:
  "extends_except A s s' \<Longrightarrow> valid s sl \<Longrightarrow> valid s' sl"
  unfolding extends_except_def valid_def by auto

lemma extends_except_contents:
  "extends_except A s s' \<Longrightarrow> valid s sl \<Longrightarrow> arr sl \<notin> A \<Longrightarrow> contents s' sl = contents s sl"
  unfolding extends_except_def valid_def contents_def by auto

lemma extends_except_arrays_update:
  "arrays s' = arrays s \<Longrightarrow> extends_except A s s'"
  by (simp add: extends_except_def)

lemma length_contents: "valid s sl \<Longrightarrow> length (contents s sl) = len sl"
  by (auto simp: valid_def contents_def)

lemma contents_nth:
  "valid s sl \<Longrightarrow> i < len sl \<Longrightarrow> contents s sl ! i = arrays s ! arr sl ! (off sl + i)"
  by (auto simp: valid_def contents_def)

lemma alloc_facts:
  assumes "alloc s xs = (sl, s')"
  shows "valid s' sl" and "contents s' sl = xs" and "arr sl = length (arrays s)"
    and "extends_except A s s'"
    and "items s' = items s" and "index s' = index s" and "hmaps s' = hmaps s"
    and "growth s' = growth s" and "length (arrays s') = Suc (length (arrays s))"
  using assms
  by (auto simp: alloc_def valid_def contents_def extends_except_def nth_append)

lemma alloc_map_facts:
  assumes "alloc_map s m = (a, s')"
  shows "arrays s' = arrays s" and "items s' = items s" and "index s' = index s"
    and "growth s' = growth s" and "hmaps s' ! a = m" and "a = length (hmaps s)"
    and "hmaps s' = hmaps s @ [m]"
  using assms by (auto simp: alloc_map_def)

lemma append_slice_fields:
  assumes "append_slice s sl xs = (sl', s')"
  shows "items s' = items s" and "index s' = index s" and "hmaps s' = hmaps s"
    and "growth s' = growth s"
  using assms by (auto simp: append_slice_def Let_def split: if_splits)

lemma append_slice_facts:
  assumes v: "valid s sl" and a: "append_slice s sl xs = (sl', s')"
  shows "valid s' sl'" and "contents s' sl' = contents s sl @ xs"
    and "extends_except {arr sl} s s'"
    and "arr sl' = arr sl \<or> arr sl' = length (arrays s)"
    and "len sl' = len sl + length xs"
proof -
  let ?n = "len sl + length xs"
  show "len sl' = len sl + length xs"
    using a by (auto simp: append_slice_def Let_def split: if_splits)
  show "arr sl' = arr sl \<or> arr sl' = length (arrays s)"
    using a by (auto simp: append_slice_def Let_def split: if_splits)
  show "valid s' sl'"
  proof (cases "?n \<le> cap sl")
    case True
    with a v show ?thesis
      by (auto simp: append_slice_def Let_def valid_def)
  next
    case False
    with a v show ?thesis
      by (auto simp: append_slice_def Let_def valid_def length_contents nth_append)
  qed
  show "contents s' sl' = contents s sl @ xs"
  proof (cases "?n \<le> cap sl")
    case True
    let ?a = "arrays s ! arr sl"
    let ?p = "off sl + len sl"
    from v True have b: "?p + length xs \<le> length ?a" "arr sl < length (arrays s)"
      by (auto simp: valid_def)
    have sl': "sl' = sl\<lparr>len := ?n\<rparr>"
      and s': "arrays s' = (arrays s)[arr sl := take ?p ?a @ xs @ drop (?p + length xs) ?a]"
      using a True by (auto simp: append_slice_def Let_def)
    have "drop (off sl) (take ?p ?a @ xs @ drop (?p + length xs) ?a) =
        take (len sl) (drop (off sl) ?a) @ xs @ drop (?p + length xs) ?a"
      using b by (simp add: drop_take)
    moreover have "length (take (len sl) (drop (off sl) ?a)) = len sl"
      using b by simp
    ultimately have "take ?n (drop (off sl) (take ?p ?a @ xs @ drop (?p + length xs) ?a)) =
        take (len sl) (drop (off sl) ?a) @ xs"
      by simp
    then show ?thesis using b by (simp add: contents_def sl' s')
  next
    case False
    with a v show ?thesis
      by (auto simp: append_slice_def Let_def contents_def[of s'] length_contents)
  qed
  show "extends_except {arr sl} s s'"
  proof (cases "?n \<le> cap sl")
    case True
    let ?a = "arrays s ! arr sl"
    let ?p = "off sl + len sl"
    from v True have b: "?p + length xs \<le> length ?a"
      by (auto simp: valid_def)
    define na where "na = take ?p ?a @ xs @ drop (?p + length xs) ?a"
    have l: "length na = length ?a"
      using b by (simp add: na_def)
    have s': "arrays s' = (arrays s)[arr sl := na]"
      using a True by (auto simp: append_slice_def Let_def na_def)
    have "arr sl < length (arrays s)" using v by (simp add: valid_def)
    then show ?thesis
      unfolding extends_except_def s' using l
      by (auto simp: nth_list_update)
  next
    case False
    with a show ?thesis
      by (auto simp: append_slice_def Let_def extends_except_def nth_append)
  qed
qed

lemma contents_index_update [simp]: "contents (s\<lparr>index := x\<rparr>) sl = contents s sl"
  by (simp add: contents_def)

lemma contents_items_update [simp]: "contents (s\<lparr>items := x\<rparr>) sl = contents s sl"
  by (simp add: contents_def)

lemma contents_hmaps_update [simp]: "contents (s\<lparr>hmaps := x\<rparr>) sl = contents s sl"
  by (simp add: contents_def)

lemma valid_index_update [simp]: "valid (s\<lparr>index := x\<rparr>) sl = valid s sl"
  by (simp add: valid_def)

lemma valid_items_update [simp]: "valid (s\<lparr>items := x\<rparr>) sl = valid s sl"
  by (simp add: valid_def)

lemma valid_hmaps_update [simp]: "valid (s\<lparr>hmaps := x\<rparr>) sl = valid s sl"
  by (simp add: valid_def)

lemma extends_except_index_update [simp]:
  "extends_except A s (s'\<lparr>index := x\<rparr>) = extends_except A s s'"
  by (simp add: extends_except_def)

lemma extends_except_items_update [simp]:
  "extends_except A s (s'\<lparr>items := x\<rparr>) = extends_except A s s'"
  by (simp add: extends_except_def)

lemma extends_except_hmaps_update [simp]:
  "extends_except A s (s'\<lparr>hmaps := x\<rparr>) = extends_except A s s'"
  by (simp add: extends_except_def)

lemma contents_slice_to:
  "i \<le> len sl \<Longrightarrow> contents s (slice_to sl i) = take i (contents s sl)"
  by (simp add: contents_def slice_to_def min_def)

lemma contents_slice_from:
  "contents s (slice_from sl i) = drop i (contents s sl)"
  by (simp add: contents_def slice_from_def drop_take add.commute)

lemma valid_slice_to: "valid s sl \<Longrightarrow> i \<le> len sl \<Longrightarrow> valid s (slice_to sl i)"
  by (simp add: valid_def slice_to_def)

lemma extends_except_fresh:
  "extends_except A s s' \<Longrightarrow> (\<And>a. a \<in> A \<Longrightarrow> length (arrays s) \<le> a) \<Longrightarrow> extends_except {} s s'"
  unfolding extends_except_def by (metis not_less)

section \<open>Index maintenance\<close>

lemma updateIndex_facts:
  assumes v: "valid s (index s)"
  shows "valid (updateIndex s key add) (index (updateIndex s key add))"
    and "contents (updateIndex s key add) (index (updateIndex s key add)) =
           updated_keys (contents s (index s)) key add"
    and "extends_except {arr (index s)} s (updateIndex s key add)"
    and "arr (index (updateIndex s key add)) = arr (index s) \<or>
           length (arrays s) \<le> arr (index (updateIndex s key add))"
    and "items (updateIndex s key add) = items s"
    and "hmaps (updateIndex s key add) = hmaps s"
    and "growth (updateIndex s key add) = growth s"
proof -
  let ?a = "contents s (index s)"
  let ?i = "Search ?a key"
  let ?s' = "updateIndex s key add"
  have la: "length ?a = len (index s)" using v by (rule length_contents)
  have le: "?i \<le> len (index s)" using Search_le_length [of ?a key] la by simp
  have all: "valid ?s' (index ?s') \<and>
      contents ?s' (index ?s') = updated_keys ?a key add \<and>
      extends_except {arr (index s)} s ?s' \<and>
      (arr (index ?s') = arr (index s) \<or> length (arrays s) \<le> arr (index ?s')) \<and>
      items ?s' = items s \<and> hmaps ?s' = hmaps s \<and> growth ?s' = growth s"
  proof (cases "?i = len (index s) \<or> (if add then ?a ! ?i = key else ?a ! ?i \<noteq> key)")
    case True
    show ?thesis
    proof (cases "add \<and> ?i = len (index s)")
      case True
      obtain sl s1 where ap: "append_slice s (index s) [key] = (sl, s1)" by fastforce
      have eq: "?s' = s1\<lparr>index := sl\<rparr>"
        using True ap by (simp add: updateIndex_def Let_def)
      have uk: "updated_keys ?a key add = ?a @ [key]"
        using True la by (simp add: updated_keys_def Let_def)
      from append_slice_facts [OF v ap] append_slice_fields [OF ap] show ?thesis
        unfolding eq uk by auto
    next
      case False
      with True have eq: "?s' = s"
        by (auto simp: updateIndex_def Let_def)
      have uk: "updated_keys ?a key add = ?a"
        using True False la by (auto simp: updated_keys_def Let_def)
      show ?thesis unfolding eq uk using v by (simp add: extends_except_refl)
    qed
  next
    case False
    then have i: "?i < len (index s)" using le by auto
    show ?thesis
    proof (cases add)
      case True
      with False have ne: "?a ! ?i \<noteq> key" by auto
      obtain lit s1 where al: "alloc s [key] = (lit, s1)" by fastforce
      note f1 = alloc_facts [OF al]
      have i1: "index s1 = index s" by (rule f1(6))
      have c1: "contents s1 (index s) = ?a"
        using f1(4) [of "{}"] v by (simp add: extends_except_contents)
      obtain inner s2 where
        ap1: "append_slice s1 lit (contents s1 (slice_from (index s1) ?i)) = (inner, s2)"
        by fastforce
      note f2 = append_slice_facts [OF f1(1) ap1] append_slice_fields [OF ap1]
      have i2: "index s2 = index s" using f2 i1 by simp
      have e02: "extends_except {} s s2"
        by (rule extends_except_trans [OF f1(4) [of "{}"] f2(3)]) (simp add: f1(3))
      have c2: "contents s2 (index s) = ?a"
        using e02 v by (simp add: extends_except_contents)
      have v2: "valid s2 (index s)" using e02 v by (rule extends_except_valid)
      have ci: "contents s2 inner = key # drop ?i ?a"
        using f2(2) f1(2) i1 c1 by (simp add: contents_slice_from)
      obtain sl s3 where
        ap2: "append_slice s2 (slice_to (index s2) ?i) (contents s2 inner) = (sl, s3)"
        by fastforce
      have vt: "valid s2 (slice_to (index s2) ?i)"
        unfolding i2 using v2 i by (simp add: valid_slice_to)
      note f3 = append_slice_facts [OF vt ap2] append_slice_fields [OF ap2]
      have eq: "?s' = s3\<lparr>index := sl\<rparr>"
        using True i ne al ap1 ap2 by (simp add: updateIndex_def Let_def)
      have uk: "updated_keys ?a key add = take ?i ?a @ key # drop ?i ?a"
        using True i ne la by (simp add: updated_keys_def Let_def)
      have at: "arr (slice_to (index s2) ?i) = arr (index s)"
        by (simp add: i2 slice_to_def)
      have c3: "contents s3 sl = take ?i ?a @ key # drop ?i ?a"
        using f3(2) ci c2 i by (simp add: i2 contents_slice_to)
      have e03: "extends_except {arr (index s)} s s3"
        by (rule extends_except_trans [OF extends_except_mono [OF e02, of "{arr (index s)}"]
              f3(3) [unfolded at]]) simp_all
      have ar: "arr sl = arr (index s) \<or> length (arrays s) \<le> arr sl"
        using f3(4) e02 unfolding at by (auto simp: extends_except_def)
      show ?thesis
        unfolding eq uk using f3(1) c3 e03 ar f1 f2 f3 by simp
    next
      case rm: False
      with False have eqk: "?a ! ?i = key" by auto
      obtain sl s1 where
        ap: "append_slice s (slice_to (index s) ?i)
               (contents s (slice_from (index s) (?i + 1))) = (sl, s1)"
        by fastforce
      have vt: "valid s (slice_to (index s) ?i)"
        using v i by (simp add: valid_slice_to)
      note f = append_slice_facts [OF vt ap] append_slice_fields [OF ap]
      have eq: "?s' = s1\<lparr>index := sl\<rparr>"
        using rm i eqk ap by (simp add: updateIndex_def Let_def)
      have uk: "updated_keys ?a key add = take ?i ?a @ drop (Suc ?i) ?a"
        using rm i eqk la by (simp add: updated_keys_def Let_def)
      have at: "arr (slice_to (index s) ?i) = arr (index s)"
        by (simp add: slice_to_def)
      have c: "contents s1 sl = take ?i ?a @ drop (Suc ?i) ?a"
        using f(2) i by (simp add: contents_slice_to contents_slice_from)
      show ?thesis
        unfolding eq uk using f c unfolding at by auto
    qed
  qed
  from all show "valid ?s' (index ?s')" by blast
  from all show "contents ?s' (index ?s') = updated_keys ?a key add" by blast
  from all show "extends_except {arr (index s)} s ?s'" by blast
  from all show "arr (index ?s') = arr (index s) \<or> length (arrays s) \<le> arr (index ?s')" by blast
  from all show "items ?s' = items s" by blast
  from all show "hmaps ?s' = hmaps s" by blast
  from all show "growth ?s' = growth s" by blast
qed

lemma updateIndex_fields:
  "items (updateIndex s key add) = items s"
  "hmaps (updateIndex s key add) = hmaps s"
  "growth (updateIndex s key add) = growth s"
  by (auto simp: updateIndex_def Let_def alloc_def append_slice_def split: prod.splits if_splits)

lemma checkkey_absent_create:
  assumes "items s k = None"
  shows "checkkey s k T True =
           (Inr \<lparr>stringValue = [], listValue = None, mapValue = None, Type = T\<rparr>,
            (updateIndex s k True)\<lparr>items := (items s)(k \<mapsto>
               \<lparr>stringValue = [], listValue = None, mapValue = None, Type = T\<rparr>)\<rparr>)"
  using assms by (simp add: checkkey_def Let_def updateIndex_fields)

lemma checkkey_absent_no_create:
  "items s k = None \<Longrightarrow> checkkey s k T False = (Inl (KeyNotFound k), s)"
  by (simp add: checkkey_def)

section \<open>The invariants are kept\<close>

lemma good_New: "good (New g)"
  by (simp add: good_def wf_def apart_def index_inv_def New_def valid_def contents_def)

lemma good_hmaps_update [simp]: "good (s\<lparr>hmaps := x\<rparr>) = good s"
  by (simp add: good_def wf_def apart_def index_inv_def)

lemma item_ok_hmaps_update [simp]: "item_ok (s\<lparr>hmaps := x\<rparr>) i = item_ok s i"
  by (simp add: item_ok_def)

lemma good_item_ok: "good s \<Longrightarrow> items s k = Some i \<Longrightarrow> item_ok s i"
  by (auto simp: good_def wf_def apart_def item_ok_def)

lemma good_extends:
  assumes g: "good s" and e: "extends_except A s s'" and a: "arr (index s) \<notin> A"
    and i: "items s' = items s" "index s' = index s"
  shows "good s'"
proof -
  from g have v: "valid s (index s)" by (simp add: good_def wf_def)
  have c: "contents s' (index s) = contents s (index s)"
    using e v a by (rule extends_except_contents)
  have "wf s'"
    using g i extends_except_valid [OF e] by (auto simp: good_def wf_def)
  moreover have "apart s'" using g i by (simp add: good_def apart_def)
  moreover have "index_inv s'" using g i c by (simp add: good_def index_inv_def)
  ultimately show ?thesis by (simp add: good_def)
qed

lemma item_ok_extends:
  assumes "item_ok s i" and "extends_except A s s'" and "index s' = index s"
  shows "item_ok s' i"
  using assms extends_except_valid [OF assms(2)] by (auto simp: item_ok_def)

lemma good_overwrite:
  assumes g: "good s" and k: "items s k \<noteq> None" and ok: "item_ok s i"
  shows "good (s\<lparr>items := (items s)(k \<mapsto> i)\<rparr>)"
proof -
  have "wf (s\<lparr>items := (items s)(k \<mapsto> i)\<rparr>)"
    using g ok by (auto simp: good_def wf_def item_ok_def)
  moreover have "apart (s\<lparr>items := (items s)(k \<mapsto> i)\<rparr>)"
    using g ok by (auto simp: good_def apart_def item_ok_def)
  moreover have "index_inv (s\<lparr>items := (items s)(k \<mapsto> i)\<rparr>)"
    using g k by (auto simp: good_def index_inv_def)
  ultimately show ?thesis by (simp add: good_def)
qed

lemma good_add:
  assumes g: "good s" and ok: "item_ok s i"
  shows "good ((updateIndex s k True)\<lparr>items := (items (updateIndex s k True))(k \<mapsto> i)\<rparr>)"
proof -
  let ?u = "updateIndex s k True"
  let ?s' = "?u\<lparr>items := (items ?u)(k \<mapsto> i)\<rparr>"
  from g have v: "valid s (index s)" by (simp add: good_def wf_def)
  note f = updateIndex_facts [OF v, of k True]
  have old: "valid ?u l \<and> arr l \<noteq> arr (index ?u)" if "valid s l" "arr l \<noteq> arr (index s)" for l
  proof -
    have "valid ?u l" using f(3) that(1) by (rule extends_except_valid)
    moreover have "arr l < length (arrays s)" using that(1) by (simp add: valid_def)
    ultimately show ?thesis using f(4) that(2) by auto
  qed
  have "wf ?s'"
    using g ok f(1) f(5) old by (auto simp: good_def wf_def apart_def item_ok_def)
  moreover have "apart ?s'"
    using g ok f(5) old unfolding good_def wf_def apart_def item_ok_def
    by (auto split: if_splits)
  moreover have "index_inv ?s'"
    using g f(2) f(5) updated_keys_add_sorted [of "contents s (index s)" k]
      updated_keys_add_set [of "contents s (index s)" k]
    by (simp add: good_def index_inv_def)
  ultimately show ?thesis by (simp add: good_def)
qed

lemma good_Delete:
  assumes g: "good s"
  shows "good (Delete s k)"
proof (cases "items s k")
  case None
  then have "(items s)(k := None) = items s" by auto
  with None have "Delete s k = s" by (simp add: Delete_def)
  with g show ?thesis by simp
next
  case (Some i)
  let ?u = "updateIndex s k False"
  from g have v: "valid s (index s)" and so: "sorted_wrt (<) (contents s (index s))"
    by (simp_all add: good_def wf_def index_inv_def)
  note f = updateIndex_facts [OF v, of k False]
  have eq: "Delete s k = ?u\<lparr>items := (items s)(k := None)\<rparr>"
    using Some f(5) by (simp add: Delete_def Let_def)
  have old: "valid ?u l \<and> arr l \<noteq> arr (index ?u)" if "valid s l" "arr l \<noteq> arr (index s)" for l
  proof -
    have "valid ?u l" using f(3) that(1) by (rule extends_except_valid)
    moreover have "arr l < length (arrays s)" using that(1) by (simp add: valid_def)
    ultimately show ?thesis using f(4) that(2) by auto
  qed
  have "wf (Delete s k)"
    unfolding eq using g f(1) old by (auto simp: good_def wf_def apart_def split: if_splits)
  moreover have "apart (Delete s k)"
    unfolding eq using g old unfolding good_def wf_def apart_def
    by (auto split: if_splits)
  moreover have "index_inv (Delete s k)"
    unfolding eq using g f(2) updated_keys_remove_sorted [OF so, of k]
      updated_keys_remove_set [OF so, of k]
    by (auto simp: good_def index_inv_def)
  ultimately show ?thesis by (simp add: good_def)
qed

lemma checkkey_Inl: "checkkey s k T c = (Inl e, s1) \<Longrightarrow> s1 = s"
  by (auto simp: checkkey_def Let_def split: option.splits if_splits)

lemma checkkey_Inr: "checkkey s k T c = (Inr i, s1) \<Longrightarrow> items s1 k = Some i"
  by (auto simp: checkkey_def Let_def split: option.splits if_splits)

lemma checkkey_no_create: "checkkey s k T False = (r, s1) \<Longrightarrow> s1 = s"
  by (auto simp: checkkey_def split: option.splits if_splits)

lemma good_checkkey:
  assumes "good s"
  shows "good (snd (checkkey s k T c))"
  using assms good_add [OF assms, of _ k]
  by (auto simp: checkkey_def Let_def item_ok_def split: option.splits)

lemma good_checkkey_Inr:
  assumes "good s" and "checkkey s k T c = (Inr i, s1)"
  shows "good s1" and "items s1 k = Some i" and "item_ok s1 i"
proof -
  show g1: "good s1" using good_checkkey [OF assms(1), of k T c] assms(2) by simp
  show k1: "items s1 k = Some i" using assms(2) by (rule checkkey_Inr)
  show "item_ok s1 i" using g1 k1 by (rule good_item_ok)
qed

lemma Set_item_good:
  assumes g: "good s" and u: "unshared s (OpSet k v)" and si: "Set_item s v = Some (i, s0)"
  shows "good s0" and "item_ok s0 i" and "items s0 = items s"
proof -
  from g have v: "valid s (index s)" by (simp add: good_def wf_def)
  then have b: "arr (index s) < length (arrays s)" by (simp add: valid_def)
  have "good s0 \<and> item_ok s0 i \<and> items s0 = items s"
  proof (cases v)
    case (Basic x)
    with si g show ?thesis by (cases x) (auto simp: item_ok_def zero_Item_def)
  next
    case (StrSlice l)
    with si g u show ?thesis by (cases l) (auto simp: item_ok_def zero_Item_def)
  next
    case (StrMap m)
    with si g show ?thesis by (auto simp: item_ok_def zero_Item_def)
  next
    case (AnySlice al)
    then obtain sl where al: "alloc s (map Sprintf_s (case al of None \<Rightarrow> [] | Some xs \<Rightarrow> xs)) = (sl, s0)"
      and i: "i = zero_Item\<lparr>Type := ''list'', listValue := Some sl\<rparr>"
      using si by (auto split: prod.splits)
    note f = alloc_facts [OF al]
    have "good s0" using g f(4) [of "{}"] _ f(5) f(6) by (rule good_extends) simp
    moreover have "item_ok s0 i" using f(1) f(3) f(6) b by (simp add: item_ok_def i)
    ultimately show ?thesis using f(5) by simp
  next
    case (AnyMap am)
    then obtain m1 where "alloc_map s (case am of None \<Rightarrow> Map.empty
        | Some m \<Rightarrow> (\<lambda>k. map_option Sprintf_s (m k))) = (m1, s0)"
      and i: "i = zero_Item\<lparr>Type := ''map'', mapValue := Some m1\<rparr>"
      using si by (auto split: prod.splits)
    then obtain hm where "s0 = s\<lparr>hmaps := hm\<rparr>" by (auto simp: alloc_map_def)
    with g show ?thesis by (simp add: item_ok_def i zero_Item_def)
  qed
  then show "good s0" and "item_ok s0 i" and "items s0 = items s" by blast+
qed

lemma good_Set:
  assumes g: "good s" and u: "unshared s (OpSet k v)"
  shows "good (snd (Set s k v))"
proof (cases "Set_item s v")
  case None
  with g show ?thesis by (simp add: Set_def)
next
  case (Some p)
  obtain i s0 where p: "p = (i, s0)" by (cases p)
  note f = Set_item_good [OF g u Some [unfolded p]]
  show ?thesis
  proof (cases "items s0 k")
    case None
    then show ?thesis using Some p good_add [OF f(1) f(2), of k]
      by (simp add: Set_def Let_def)
  next
    case (Some j)
    then have "items s0 k \<noteq> None" by simp
    from good_overwrite [OF f(1) this f(2)] Some \<open>Set_item s v = Some p\<close> p
    show ?thesis by (simp add: Set_def Let_def)
  qed
qed

lemma good_Append:
  assumes g: "good s"
  shows "good (snd (Append s k v))"
proof (cases "checkkey s k ''list'' True")
  case (Pair r s1)
  show ?thesis
  proof (cases r)
    case (Inl e)
    with Pair g checkkey_Inl [of s k "''list''" True e s1] show ?thesis
      by (simp add: Append_def)
  next
    case (Inr i)
    note c = good_checkkey_Inr [OF g Pair [unfolded Inr]]
    obtain l s2 where m: "(case listValue i of None \<Rightarrow> alloc s1 [] | Some l \<Rightarrow> (l, s1)) = (l, s2)"
      by fastforce
    have m2: "good s2 \<and> valid s2 l \<and> arr l \<noteq> arr (index s2) \<and> items s2 = items s1"
    proof (cases "listValue i")
      case None
      with m have al: "alloc s1 [] = (l, s2)" by simp
      note f = alloc_facts [OF al]
      from c(1) have "arr (index s1) < length (arrays s1)"
        by (simp add: good_def wf_def valid_def)
      moreover have "good s2" using c(1) f(4) [of "{}"] _ f(5) f(6) by (rule good_extends) simp
      ultimately show ?thesis using f by simp
    next
      case (Some l')
      with m c show ?thesis by (auto simp: item_ok_def)
    qed
    obtain l1 s3 where ap: "append_slice s2 l [v] = (l1, s3)" by fastforce
    from m2 have vl: "valid s2 l" by simp
    note f = append_slice_facts [OF vl ap] append_slice_fields [OF ap]
    have g3: "good s3"
    proof (rule good_extends [OF _ f(3) _ f(6) f(7)])
      show "good s2" using m2 by simp
      show "arr (index s2) \<notin> {arr l}" using m2 by auto
    qed
    have "arr (index s2) < length (arrays s2)"
      using m2 by (simp add: good_def wf_def valid_def)
    then have ok: "item_ok s3 (i\<lparr>listValue := Some l1\<rparr>)"
      using f(1) f(4) f(7) m2 by (auto simp: item_ok_def)
    have k3: "items s3 k \<noteq> None" using f(6) m2 c(2) by simp
    have "snd (Append s k v) = s3\<lparr>items := (items s3)(k \<mapsto> i\<lparr>listValue := Some l1\<rparr>)\<rparr>"
      using Pair Inr m ap by (simp add: Append_def)
    with good_overwrite [OF g3 k3 ok] show ?thesis by simp
  qed
qed

lemma good_Pop:
  assumes g: "good s"
  shows "good (snd (Pop s k))"
proof (cases "checkkey s k ''list'' False")
  case (Pair r s1)
  then have s1: "s1 = s" by (rule checkkey_no_create)
  show ?thesis
  proof (cases r)
    case (Inl e)
    with Pair g s1 show ?thesis by (simp add: Pop_def)
  next
    case (Inr i)
    note c = good_checkkey_Inr [OF g Pair [unfolded Inr]]
    show ?thesis
    proof (cases "listValue i")
      case None
      with Pair Inr c show ?thesis by (simp add: Pop_def)
    next
      case (Some l)
      show ?thesis
      proof (cases "len l = 0")
        case True
        with Pair Inr Some c show ?thesis by (simp add: Pop_def)
      next
        case False
        from c(3) Some have "valid s1 l" "arr l \<noteq> arr (index s1)"
          by (simp_all add: item_ok_def)
        then have ok: "item_ok s1 (i\<lparr>listValue := Some (slice_to l (len l - 1))\<rparr>)"
          by (simp add: item_ok_def valid_slice_to) (simp add: slice_to_def)
        have "items s1 k \<noteq> None" using c(2) by simp
        from good_overwrite [OF c(1) this ok] Pair Inr Some False show ?thesis
          by (simp add: Pop_def)
      qed
    qed
  qed
qed

lemma good_MapGet: "good s \<Longrightarrow> good (snd (MapGet s k mk))"
  using checkkey_no_create [of s k "''map''"]
  by (auto simp: MapGet_def split: prod.splits sum.splits option.splits)

lemma good_map_write:
  assumes g: "good s" and c: "checkkey s k ''map'' cr = (Inr i, s1)"
    and m: "(case mapValue i of None \<Rightarrow> alloc_map s1 Map.empty | Some m0 \<Rightarrow> (m0, s1)) = (a, s2)"
  shows "good (s2\<lparr>hmaps := h, items := (items s2)(k \<mapsto> i\<lparr>mapValue := Some a\<rparr>)\<rparr>)"
proof -
  note f = good_checkkey_Inr [OF g c]
  have "s2 = s1\<lparr>hmaps := hmaps s2\<rparr>"
    using m by (cases "mapValue i") (auto simp: alloc_map_def)
  then obtain hm where s2: "s2 = s1\<lparr>hmaps := hm\<rparr>" ..
  have g2: "good (s1\<lparr>hmaps := h\<rparr>)" using f(1) by simp
  have ok: "item_ok (s1\<lparr>hmaps := h\<rparr>) (i\<lparr>mapValue := Some a\<rparr>)"
    using f(3) by (simp add: item_ok_def)
  have k: "items (s1\<lparr>hmaps := h\<rparr>) k \<noteq> None" using f(2) by simp
  from good_overwrite [OF g2 k ok] show ?thesis by (simp add: s2)
qed

lemma good_MapSet:
  assumes g: "good s"
  shows "good (snd (MapSet s k mk v))"
proof (cases "checkkey s k ''map'' True")
  case (Pair r s1)
  show ?thesis
  proof (cases r)
    case (Inl e)
    with Pair g checkkey_Inl [of s k "''map''" True e s1] show ?thesis
      by (simp add: MapSet_def)
  next
    case (Inr i)
    obtain a s2 where m: "(case mapValue i of None \<Rightarrow> alloc_map s1 Map.empty
        | Some m0 \<Rightarrow> (m0, s1)) = (a, s2)" by fastforce
    from good_map_write [OF g Pair [unfolded Inr] m] Pair Inr m show ?thesis
      by (simp add: MapSet_def)
  qed
qed

lemma good_MapDelete:
  assumes g: "good s"
  shows "good (snd (MapDelete s k mk))"
proof (cases "checkkey s k ''map'' False")
  case (Pair r s1)
  show ?thesis
  proof (cases r)
    case (Inl e)
    with Pair g checkkey_Inl [of s k "''map''" False e s1] show ?thesis
      by (simp add: MapDelete_def)
  next
    case (Inr i)
    obtain a s2 where m: "(case mapValue i of None \<Rightarrow> alloc_map s1 Map.empty
        | Some m0 \<Rightarrow> (m0, s1)) = (a, s2)" by fastforce
    from good_map_write [OF g Pair [unfolded Inr] m] Pair Inr m show ?thesis
      by (simp add: MapDelete_def)
  qed
qed

lemma collect_facts:
  assumes "valid s res" and "n \<le> arr res" and "collect s res pat xs = (res', s')"
  shows "valid s' res' \<and> contents s' res' = contents s res @ filter (Glob pat) xs \<and>
         extends_except {a. n \<le> a} s s' \<and> n \<le> arr res' \<and>
         items s' = items s \<and> index s' = index s \<and> hmaps s' = hmaps s \<and> growth s' = growth s"
  using assms
proof (induction xs arbitrary: s res)
  case Nil
  then show ?case by (simp add: extends_except_refl)
next
  case (Cons x xs)
  show ?case
  proof (cases "Glob pat x")
    case False
    with Cons.prems Cons.IH [of s res] show ?thesis by simp
  next
    case True
    obtain res1 s1 where ap: "append_slice s res [x] = (res1, s1)" by fastforce
    note f = append_slice_facts [OF Cons.prems(1) ap] append_slice_fields [OF ap]
    have n1: "n \<le> arr res1"
      using f(4) Cons.prems(1,2) by (auto simp: valid_def)
    have c: "collect s1 res1 pat xs = (res', s')"
      using Cons.prems(3) True ap by simp
    note ih = Cons.IH [OF f(1) n1 c]
    have e1: "extends_except {a. n \<le> a} s s1"
      using f(3) Cons.prems(2) by (auto intro: extends_except_mono)
    have "extends_except {a. n \<le> a} s s'"
      by (rule extends_except_trans [OF e1]) (use ih in auto)
    with ih f True show ?thesis by simp
  qed
qed

lemma GetIndex_facts:
  assumes "GetIndex s pat = (r, s')"
  shows "extends_except {} s s'" and "items s' = items s" and "index s' = index s"
    and "hmaps s' = hmaps s" and "growth s' = growth s"
proof -
  have "extends_except {} s s' \<and> items s' = items s \<and> index s' = index s \<and>
      hmaps s' = hmaps s \<and> growth s' = growth s"
  proof (cases "pat = ''*'' \<or> length (Split pat (CHR ''*'')) = 1")
    case True
    with assms show ?thesis
      by (auto simp: GetIndex_def Let_def alloc_def extends_except_def nth_append
          split: if_splits)
  next
    case False
    obtain res s1 where al: "alloc s [] = (res, s1)" by fastforce
    obtain res1 s2 where co: "collect s1 res pat (contents s1 (index s1)) = (res1, s2)"
      by fastforce
    have s': "s' = s2" using assms False al co by (simp add: GetIndex_def Let_def)
    note f = alloc_facts [OF al]
    have "length (arrays s) \<le> arr res" using f(3) by simp
    note c = collect_facts [OF f(1) this co]
    have "extends_except {a. length (arrays s) \<le> a} s s2"
      by (rule extends_except_trans [OF f(4) [of "{a. length (arrays s) \<le> a}"]]) (use c in auto)
    then have "extends_except {} s s2" by (rule extends_except_fresh) simp
    with c f show ?thesis by (simp add: s')
  qed
  then show "extends_except {} s s'" and "items s' = items s" and "index s' = index s"
    and "hmaps s' = hmaps s" and "growth s' = growth s" by blast+
qed

lemma good_GetIndex:
  assumes "good s"
  shows "good (snd (GetIndex s pat))"
proof -
  obtain r s' where g: "GetIndex s pat = (r, s')" by fastforce
  note f = GetIndex_facts [OF g]
  have "good s'" using assms f(1) _ f(2) f(3) by (rule good_extends) simp
  with g show ?thesis by simp
qed

lemma good_alloc: "good s \<Longrightarrow> good (snd (alloc s xs))"
proof -
  assume g: "good s"
  obtain sl s' where al: "alloc s xs = (sl, s')" by fastforce
  note f = alloc_facts [OF al]
  have "good s'" using g f(4) [of "{}"] _ f(5) f(6) by (rule good_extends) simp
  with al show ?thesis by simp
qed

lemma good_alloc_map: "good s \<Longrightarrow> good (snd (alloc_map s m))"
  by (simp add: alloc_map_def)

lemma good_step: "good s \<Longrightarrow> unshared s x \<Longrightarrow> good (step s x)"
  by (cases x)
    (simp_all add: good_Set good_Delete good_Append good_Pop good_MapGet good_MapSet
      good_MapDelete good_GetIndex good_alloc good_alloc_map)

lemma good_foldl: "good s \<Longrightarrow> all_unshared s ops \<Longrightarrow> good (foldl step s ops)"
  by (induction ops arbitrary: s) (simp_all add: good_step)

lemma good_run: "all_unshared (New g) ops \<Longrightarrow> good (run g ops)"
  unfolding run_def by (rule good_foldl [OF good_New])

lemma good_index:
  "good s \<Longrightarrow> valid s (index s) \<and> index_inv s"
  by (simp add: good_def wf_def)

lemma run_inv:
  "all_unshared (New g) ops \<Longrightarrow> valid (run g ops) (index (run g ops)) \<and> index_inv (run g ops)"
  by (rule good_index [OF good_run])

section \<open>Set and the patterns\<close>





lemma Split_not_Nil: "Split p c \<noteq> []"
  by (induction p) (auto split: list.splits)

lemma Split_length: "length (Split p c) = Suc (count_list p c)"
proof (induction p)
  case Nil
  show ?case by simp
next
  case (Cons x xs)
  then show ?case using Split_not_Nil [of xs c]
    by (cases "Split xs c") auto
qed

lemma Split_single: "length (Split p c) = 1 \<longleftrightarrow> c \<notin> set p"
  by (simp add: Split_length count_list_0_iff)

lemma Glob_star_skip: "Glob ps subj \<Longrightarrow> Glob (CHR ''*'' # ps) (skipped @ subj)"
proof (induction skipped)
  case Nil
  then show ?case by (cases subj) simp_all
next
  case (Cons a skipped)
  then show ?case by simp
qed

lemma glob_matches_Glob: "glob_matches p subj \<Longrightarrow> Glob p subj"
  by (induction rule: glob_matches.induct) (simp_all add: Glob_star_skip)

lemma Glob_glob_matches: "Glob p subj \<Longrightarrow> glob_matches p subj"
proof (induction p subj rule: Glob.induct)
  case (1 subj)
  then show ?case by (simp add: glob_matches.empty)
next
  case (2 p ps)
  then have "glob_matches ps []" and "p = CHR ''*''" by simp_all
  then show ?case using glob_matches.star [of ps "[]" "[]"] by simp
next
  case (3 p ps c cs)
  show ?case
  proof (cases "p = CHR ''*''")
    case False
    with "3.prems" "3.IH"(3) show ?thesis by (auto intro: glob_matches.char)
  next
    case True
    from "3.prems" True consider "Glob ps (c # cs)" | "Glob (p # ps) cs" by auto
    then show ?thesis
    proof cases
      case 1
      with "3.IH"(1) True have "glob_matches ps (c # cs)" by simp
      then show ?thesis using glob_matches.star [of ps "c # cs" "[]"] True by simp
    next
      case 2
      with "3.IH"(2) True have "glob_matches (CHR ''*'' # ps) cs" by simp
      then obtain skipped subj' where "cs = skipped @ subj'" "glob_matches ps subj'"
        by (auto elim: glob_matches.cases)
      then show ?thesis using glob_matches.star [of ps subj' "c # skipped"] True by simp
    qed
  qed
qed

lemma Glob_iff: "Glob p subj \<longleftrightarrow> glob_matches p subj"
  using Glob_glob_matches glob_matches_Glob by blast

text \<open>
  The exact-match branch of \<open>GetIndex\<close> on a sorted index: the key if it is there,
  nothing if it is not, and the out-of-range read when every key of the index (if there
  is any) sorts before the pattern.
\<close>

lemma GetIndex_exact:
  assumes "CHR ''*'' \<notin> set p" and v: "valid s (index s)"
    and so: "sorted_wrt (<) (contents s (index s))"
  shows "((\<forall>k\<in>set (contents s (index s)). k < p) \<longrightarrow>
            GetIndex s p = (Inl (IndexOutOfRange (len (index s)) (len (index s))), s)) \<and>
         (\<not> (\<forall>k\<in>set (contents s (index s)). k < p) \<longrightarrow>
            (\<exists>r s'. GetIndex s p = (Inr r, s') \<and>
               contents s' r = (if p \<in> set (contents s (index s)) then [p] else [])))"
proof -
  let ?a = "contents s (index s)"
  let ?r = "Search ?a p"
  have la: "length ?a = len (index s)" using v by (rule length_contents)
  have ne: "p \<noteq> ''*''" using assms(1) by auto
  have one: "length (Split p (CHR ''*'')) = 1"
    using assms(1) Split_single [of p "CHR ''*''"] by simp
  have eq: "GetIndex s p =
      (if \<not> ?r < len (index s) then (Inl (IndexOutOfRange ?r (len (index s))), s)
       else if ?a ! ?r \<noteq> p then (case alloc s [] of (sl, s1) \<Rightarrow> (Inr sl, s1))
       else (case alloc s [?a ! ?r] of (sl, s1) \<Rightarrow> (Inr sl, s1)))"
    using ne one by (simp add: GetIndex_def Let_def)
  from Search_sorted [OF so, of p]
  have lo: "\<And>j. j < ?r \<Longrightarrow> ?a ! j < p"
    and hi: "\<And>j. ?r \<le> j \<Longrightarrow> j < length ?a \<Longrightarrow> p \<le> ?a ! j" by blast+
  have le: "?r \<le> length ?a" by (rule Search_le_length)
  show ?thesis
  proof (cases "?r < len (index s)")
    case False
    with le la have r: "?r = len (index s)" by simp
    have "\<forall>k\<in>set ?a. k < p"
    proof
      fix k assume "k \<in> set ?a"
      then obtain j where "j < length ?a" "?a ! j = k" by (auto simp: in_set_conv_nth)
      with lo [of j] r la show "k < p" by simp
    qed
    with eq r show ?thesis by simp
  next
    case True
    then have "?a ! ?r \<in> set ?a" using la by simp
    moreover have "\<not> ?a ! ?r < p" using hi [of ?r] True la by simp
    ultimately have nall: "\<not> (\<forall>k\<in>set ?a. k < p)" by blast
    show ?thesis
    proof (cases "?a ! ?r = p")
      case eqp: True
      with \<open>?a ! ?r \<in> set ?a\<close> have "p \<in> set ?a" by simp
      with eq eqp True nall show ?thesis by (simp add: alloc_def contents_def)
    next
      case False
      then have "p \<notin> set ?a" using Search_absent [OF so, of p] by simp
      with eq False True nall show ?thesis by (simp add: alloc_def contents_def)
    qed
  qed
qed

section \<open>The concrete runs\<close>

lemmas eval_defs =
  run_def New_def doubling_def Set_def Delete_def Append_def Pop_def MapSet_def GetIndex_def
  checkkey_def updateIndex_def alloc_def alloc_map_def append_slice_def slice_to_def
  slice_from_def contents_def zero_Item_def Search_def search_loop.simps Let_def

lemma sample_store_items:
  "items sample_store ''a'' =
     Some \<lparr>stringValue = ''hello'', listValue = None, mapValue = None, Type = ''string''\<rparr>"
  "items sample_store ''b'' =
     Some \<lparr>stringValue = [], listValue = Some sample_list, mapValue = None, Type = ''list''\<rparr>"
  "items sample_store ''d'' = None"
  "items sample_store ''z'' = None"
  by (simp_all add: sample_store_def sample_ops_def eval_defs)

lemma sample_store_e:
  "\<exists>l. items sample_store ''e'' =
     Some \<lparr>stringValue = [], listValue = Some l, mapValue = None, Type = ''list''\<rparr> \<and> len l = 0"
  by (simp add: sample_store_def sample_ops_def eval_defs)

lemma sample_store_contents:
  "contents sample_store (index sample_store) = [''a'', ''b'', ''e'']"
  "contents sample_store sample_list = [''x'', ''y'']"
  "valid sample_store sample_list"
  "len sample_list = 2"
  by (simp_all add: sample_store_def sample_ops_def sample_list_def eval_defs valid_def)

lemma sample_unshared: "all_unshared (New doubling) sample_ops"
  by (simp add: sample_ops_def sample_list_def eval_defs valid_def)

lemma good_sample: "good sample_store"
  unfolding sample_store_def by (rule good_run [OF sample_unshared])

lemma aliased_store_contents:
  "contents aliased_store (index aliased_store) = [''zzz'', ''b'', ''k'']"
  by (simp add: aliased_store_def aliased_ops_def leak_ops_def leaked_index_def eval_defs)

lemma good_glob: "good glob_store"
  unfolding glob_store_def by (rule good_run) (simp add: glob_ops_def)

lemma glob_store_index:
  "contents glob_store (index glob_store) = [''aaa'', ''aaa:bbb:ccc'', ''abc'', ''ccc:aaa:bbb'']"
  by (simp add: glob_store_def glob_ops_def eval_defs)


section \<open>Claims\<close>

text \<open>
  In the theorems below a hypothesis \<open>valid s sl\<close> says of a slice of the model what
  holds of every slice value of the program: its backing array exists and holds its
  capacity. It keeps the states of the model to states of the program and excludes no
  state of the program. The items of the keys are compared as the program holds them:
  a list by its slice, a map by its map object.
\<close>

text \<open>
  C1.\<open>GetIndex\<close> on a pattern without \<open>*\<close> is claimed never to fail, also on an empty
  index and on a pattern that sorts after every key. The source reads the index at the
  position the search returns without a bounds test, as \<open>updateIndex\<close> has one: on the
  fresh store, and on a store whose only key \<open>a\<close> sorts before the pattern \<open>b\<close>, the
  call panics with an index out of range (whatever the growth policy).
\<close>

theorem GetIndex_exact_out_of_range:
  "GetIndex (New g) ''abc'' = (Inl (IndexOutOfRange 0 0), New g) \<and>
   fst (GetIndex (run g [OpSet ''a'' (Basic (BString ''x''))]) ''b'') =
     Inl (IndexOutOfRange 1 1)"
  by (simp add: eval_defs)

text \<open>
  C2, as stated: after every sequence of public operations on a fresh store the index is
  the sorted, duplicate-free list of the keys of the mapping. It fails when a client
  hands the store its own index: \<open>GetIndex("*")\<close> returns the index slice itself,
  \<open>Set\<close> keeps the slice it is handed, and \<open>Append\<close> then writes into the array of
  the index. After \<open>aliased_ops\<close> the index reads \<open>[zzz, b, k]\<close>: it is not sorted, it
  lacks the key \<open>a\<close> of the mapping and holds \<open>zzz\<close>, which is no key.
\<close>

theorem index_invariant_counterexample:
  "fst (GetIndex (run doubling leak_ops) ''*'') = Inr leaked_index \<and>
   contents aliased_store (index aliased_store) = [''zzz'', ''b'', ''k''] \<and>
   \<not> sorted_wrt (<) (contents aliased_store (index aliased_store)) \<and>
   ''a'' \<in> dom (items aliased_store) \<and>
   ''a'' \<notin> set (contents aliased_store (index aliased_store)) \<and>
   ''zzz'' \<in> set (contents aliased_store (index aliased_store)) \<and>
   ''zzz'' \<notin> dom (items aliased_store)"
  by (simp add: aliased_store_def aliased_ops_def leak_ops_def leaked_index_def eval_defs dom_def)

text \<open>
  C2, amended: after every sequence of public operations on a fresh store in which no
  slice handed to \<open>Set\<close> shares its backing array with the index of the store, the
  index is sorted ascending by string comparison, has no duplicates and holds exactly
  the keys of the mapping: it is the sorted list of the key set. (Every prefix of such a
  sequence is such a sequence, so the statement covers the store after each operation;
  it holds for every growth policy.)
\<close>

theorem index_invariant:
  assumes "all_unshared (New g) ops"
  shows "sorted_wrt (<) (contents (run g ops) (index (run g ops))) \<and>
   distinct (contents (run g ops) (index (run g ops))) \<and>
   set (contents (run g ops) (index (run g ops))) = dom (items (run g ops)) \<and>
   contents (run g ops) (index (run g ops)) = sorted_list_of_set (dom (items (run g ops)))"
proof -
  let ?c = "contents (run g ops) (index (run g ops))"
  have inv: "index_inv (run g ops)"
    using good_index [OF good_run [OF assms]] by simp
  then have s: "sorted_wrt (<) ?c" and d: "set ?c = dom (items (run g ops))"
    by (simp_all add: index_inv_def)
  from s have sd: "sorted ?c" "distinct ?c"
    by (simp_all add: strict_sorted_iff)
  then have "sorted_list_of_set (set ?c) = ?c"
    by (rule sorted_list_of_set.idem_if_sorted_distinct)
  with s sd d show ?thesis by simp
qed

theorem index_invariant_witness:
  "all_unshared (New doubling) sample_ops \<and>
   contents (run doubling sample_ops) (index (run doubling sample_ops)) = [''a'', ''b'', ''e''] \<and>
   sorted_wrt (<) (contents (run doubling sample_ops) (index (run doubling sample_ops))) \<and>
   dom (items (run doubling sample_ops)) = {''a'', ''b'', ''e''}"
  using sample_unshared index_invariant [OF sample_unshared]
    sample_store_contents(1) [unfolded sample_store_def]
  by auto




text \<open>
  C4. When key \<open>k\<close> holds an item whose type is not the one an operation requires
  (\<open>list\<close> for \<open>Append\<close> and \<open>Pop\<close>, \<open>map\<close> for \<open>MapGet\<close>, \<open>MapSet\<close> and
  \<open>MapDelete\<close>), the operation fails with \<open>TypeMismatch\<close>, whether it creates absent
  keys or not, and the state it leaves is the state it was given: the item at \<open>k\<close>, the
  rest of the mapping, the index and the memory are unchanged.
\<close>

theorem type_guard:
  assumes "items s k = Some it"
  shows "(Type it \<noteq> ''list'' \<longrightarrow>
            Append s k v = (Some (TypeMismatch (Type it) ''list''), s) \<and>
            Pop s k = (Inl (TypeMismatch (Type it) ''list''), s)) \<and>
         (Type it \<noteq> ''map'' \<longrightarrow>
            MapGet s k mk = (Inl (TypeMismatch (Type it) ''map''), s) \<and>
            MapSet s k mk v = (Some (TypeMismatch (Type it) ''map''), s) \<and>
            MapDelete s k mk = (Some (TypeMismatch (Type it) ''map''), s))"
  using assms
  by (simp add: Append_def Pop_def MapGet_def MapSet_def MapDelete_def checkkey_def)

theorem type_guard_witness:
  "items sample_store ''a'' =
     Some \<lparr>stringValue = ''hello'', listValue = None, mapValue = None, Type = ''string''\<rparr> \<and>
   Append sample_store ''a'' ''v'' = (Some (TypeMismatch ''string'' ''list''), sample_store) \<and>
   Pop sample_store ''a'' = (Inl (TypeMismatch ''string'' ''list''), sample_store) \<and>
   MapGet sample_store ''a'' ''mk'' = (Inl (TypeMismatch ''string'' ''map''), sample_store) \<and>
   MapSet sample_store ''a'' ''mk'' ''v'' = (Some (TypeMismatch ''string'' ''map''), sample_store) \<and>
   MapDelete sample_store ''a'' ''mk'' = (Some (TypeMismatch ''string'' ''map''), sample_store) \<and>
   MapGet sample_store ''b'' ''mk'' = (Inl (TypeMismatch ''list'' ''map''), sample_store)"
  using sample_store_items(1)
    type_guard [OF sample_store_items(1), of "''v''" "''mk''"]
    type_guard [OF sample_store_items(2), of "''v''" "''mk''"]
  by simp

text \<open>
  C5. On an absent key \<open>k\<close>, \<open>Append\<close> and \<open>MapSet\<close> succeed: \<open>checkkey\<close> first enters
  \<open>k\<close> in the index and creates an empty item of the expected type, and the operation
  then gives the item a list that holds the one value, or a map that holds the one
  entry; \<open>Pop\<close>, \<open>MapGet\<close> and \<open>MapDelete\<close> fail with \<open>KeyNotFound\<close> and leave the
  state as it was.
\<close>

theorem auto_vivification:
  assumes ab: "items s k = None" and v: "valid s (index s)"
  shows "fst (Append s k v) = None \<and>
         (\<exists>l. items (snd (Append s k v)) = (items s)(k \<mapsto>
                 \<lparr>stringValue = [], listValue = Some l, mapValue = None, Type = ''list''\<rparr>) \<and>
               contents (snd (Append s k v)) l = [v]) \<and>
         set (contents (snd (Append s k v)) (index (snd (Append s k v)))) =
           insert k (set (contents s (index s))) \<and>
         fst (MapSet s k mk v) = None \<and>
         (\<exists>m. items (snd (MapSet s k mk v)) = (items s)(k \<mapsto>
                 \<lparr>stringValue = [], listValue = None, mapValue = Some m, Type = ''map''\<rparr>) \<and>
               hmaps (snd (MapSet s k mk v)) ! m = [mk \<mapsto> v]) \<and>
         set (contents (snd (MapSet s k mk v)) (index (snd (MapSet s k mk v)))) =
           insert k (set (contents s (index s))) \<and>
         fst (checkkey s k T True) =
           Inr \<lparr>stringValue = [], listValue = None, mapValue = None, Type = T\<rparr> \<and>
         items (snd (checkkey s k T True)) = (items s)(k \<mapsto>
           \<lparr>stringValue = [], listValue = None, mapValue = None, Type = T\<rparr>) \<and>
         set (contents (snd (checkkey s k T True)) (index (snd (checkkey s k T True)))) =
           insert k (set (contents s (index s))) \<and>
         Pop s k = (Inl (KeyNotFound k), s) \<and>
         MapGet s k mk = (Inl (KeyNotFound k), s) \<and>
         MapDelete s k mk = (Some (KeyNotFound k), s)"
proof -
  let ?u = "updateIndex s k True"
  note f = updateIndex_facts [OF v, of k True]
  have cu: "set (contents ?u (index ?u)) = insert k (set (contents s (index s)))"
    using f(2) by (simp add: updated_keys_add_set)
  let ?z = "\<lambda>T. \<lparr>stringValue = [], listValue = None, mapValue = None, Type = T\<rparr>"
  let ?s1 = "\<lambda>T. ?u\<lparr>items := (items s)(k \<mapsto> ?z T)\<rparr>"
  have ck: "checkkey s k T True = (Inr (?z T), ?s1 T)" for T
    using ab by (rule checkkey_absent_create)
  \<comment> \<open>Append\<close>
  obtain l0 s2 where al: "alloc (?s1 ''list'') [] = (l0, s2)" by fastforce
  note a = alloc_facts [OF al]
  obtain l1 s3 where ap: "append_slice s2 l0 [v] = (l1, s3)" by fastforce
  note b = append_slice_facts [OF a(1) ap] append_slice_fields [OF ap]
  have apd: "Append s k v =
      (None, s3\<lparr>items := (items s3)(k \<mapsto> (?z ''list'')\<lparr>listValue := Some l1\<rparr>)\<rparr>)"
    using ck [of "''list''"] al ap by (simp add: Append_def)
  have e13: "extends_except {} (?s1 ''list'') s3"
    by (rule extends_except_trans [OF a(4) [of "{}"] b(3)]) (simp add: a(3))
  have "valid (?s1 ''list'') (index ?u)" using f(1) by simp
  with e13 have "contents s3 (index ?u) = contents ?u (index ?u)"
    using extends_except_contents [of "{}" "?s1 ''list''" s3 "index ?u"] by simp
  moreover have "index s3 = index ?u" using a(6) b(7) by simp
  moreover have "items s3 = (items s)(k \<mapsto> ?z ''list'')" using a(5) b(6) by simp
  moreover have "contents s3 l1 = [v]" using b(2) a(2) by simp
  ultimately have A: "fst (Append s k v) = None \<and>
         (\<exists>l. items (snd (Append s k v)) = (items s)(k \<mapsto>
                 \<lparr>stringValue = [], listValue = Some l, mapValue = None, Type = ''list''\<rparr>) \<and>
               contents (snd (Append s k v)) l = [v]) \<and>
         set (contents (snd (Append s k v)) (index (snd (Append s k v)))) =
           insert k (set (contents s (index s)))"
    using cu by (auto simp: apd)
  \<comment> \<open>MapSet\<close>
  let ?m = "length (hmaps ?u)"
  have ms: "MapSet s k mk v =
      (None, (?s1 ''map'')\<lparr>hmaps := (hmaps ?u @ [Map.empty])[?m := [mk \<mapsto> v]],
         items := (items s)(k \<mapsto> (?z ''map'')\<lparr>mapValue := Some ?m\<rparr>)\<rparr>)"
    using ck [of "''map''"] by (simp add: MapSet_def alloc_map_def)
  have M: "fst (MapSet s k mk v) = None \<and>
         (\<exists>m. items (snd (MapSet s k mk v)) = (items s)(k \<mapsto>
                 \<lparr>stringValue = [], listValue = None, mapValue = Some m, Type = ''map''\<rparr>) \<and>
               hmaps (snd (MapSet s k mk v)) ! m = [mk \<mapsto> v]) \<and>
         set (contents (snd (MapSet s k mk v)) (index (snd (MapSet s k mk v)))) =
           insert k (set (contents s (index s)))"
    using cu by (auto simp: ms)
  have C: "fst (checkkey s k T True) = Inr (?z T) \<and>
         items (snd (checkkey s k T True)) = (items s)(k \<mapsto> ?z T) \<and>
         set (contents (snd (checkkey s k T True)) (index (snd (checkkey s k T True)))) =
           insert k (set (contents s (index s)))"
    using cu by (simp add: ck)
  have N: "Pop s k = (Inl (KeyNotFound k), s) \<and>
         MapGet s k mk = (Inl (KeyNotFound k), s) \<and>
         MapDelete s k mk = (Some (KeyNotFound k), s)"
    using ab by (simp add: Pop_def MapGet_def MapDelete_def checkkey_absent_no_create)
  from A M C N show ?thesis by blast
qed

theorem auto_vivification_witness:
  "items sample_store ''d'' = None \<and>
   valid sample_store (index sample_store) \<and>
   fst (Append sample_store ''d'' ''v'') = None \<and>
   (\<exists>l. items (snd (Append sample_store ''d'' ''v'')) ''d'' =
          Some \<lparr>stringValue = [], listValue = Some l, mapValue = None, Type = ''list''\<rparr> \<and>
        contents (snd (Append sample_store ''d'' ''v'')) l = [''v'']) \<and>
   set (contents (snd (Append sample_store ''d'' ''v''))
          (index (snd (Append sample_store ''d'' ''v'')))) = {''a'', ''b'', ''d'', ''e''} \<and>
   fst (MapSet sample_store ''d'' ''mk'' ''v'') = None \<and>
   Pop sample_store ''d'' = (Inl (KeyNotFound ''d''), sample_store) \<and>
   MapGet sample_store ''d'' ''mk'' = (Inl (KeyNotFound ''d''), sample_store) \<and>
   MapDelete sample_store ''d'' ''mk'' = (Some (KeyNotFound ''d''), sample_store)"
proof -
  have v: "valid sample_store (index sample_store)"
    using good_index [OF good_sample] by simp
  have i: "set (contents sample_store (index sample_store)) = {''a'', ''b'', ''e''}"
    by (simp add: sample_store_contents)
  from auto_vivification [OF sample_store_items(3) v, of "''v''" "''mk''" "''list''"]
  obtain l where
    "fst (Append sample_store ''d'' ''v'') = None"
    "items (snd (Append sample_store ''d'' ''v'')) = (items sample_store)(''d'' \<mapsto>
       \<lparr>stringValue = [], listValue = Some l, mapValue = None, Type = ''list''\<rparr>)"
    "contents (snd (Append sample_store ''d'' ''v'')) l = [''v'']"
    "set (contents (snd (Append sample_store ''d'' ''v''))
          (index (snd (Append sample_store ''d'' ''v'')))) =
       insert ''d'' (set (contents sample_store (index sample_store)))"
    "fst (MapSet sample_store ''d'' ''mk'' ''v'') = None"
    "Pop sample_store ''d'' = (Inl (KeyNotFound ''d''), sample_store)"
    "MapGet sample_store ''d'' ''mk'' = (Inl (KeyNotFound ''d''), sample_store)"
    "MapDelete sample_store ''d'' ''mk'' = (Some (KeyNotFound ''d''), sample_store)"
    by blast
  with sample_store_items(3) v i show ?thesis by auto
qed

text \<open>
  C6. On an existing list-typed key, \<open>Pop\<close> of a non-empty list returns its last element
  and leaves the elements before it in their order; \<open>Pop\<close> of a list with no element (nil
  or of length 0) fails with \<open>EmptyList\<close> and leaves the state unchanged. On an absent
  key \<open>Pop\<close> fails with \<open>KeyNotFound\<close> and creates nothing.
\<close>

theorem Pop_lifo:
  "(items s k = Some it \<and> Type it = ''list'' \<and> listValue it = Some l \<and> valid s l \<and>
      contents s l = xs @ [x] \<longrightarrow>
      Pop s k = (Inr x, s\<lparr>items := (items s)(k \<mapsto>
                   it\<lparr>listValue := Some (slice_to l (len l - 1))\<rparr>)\<rparr>) \<and>
      contents (snd (Pop s k)) (slice_to l (len l - 1)) = xs) \<and>
   (items s k = Some it \<and> Type it = ''list'' \<and>
      (listValue it = None \<or> (listValue it = Some l \<and> len l = 0)) \<longrightarrow>
      Pop s k = (Inl EmptyList, s)) \<and>
   (items s k = None \<longrightarrow> Pop s k = (Inl (KeyNotFound k), s))"
proof -
  have 1: "Pop s k = (Inr x, s\<lparr>items := (items s)(k \<mapsto>
                   it\<lparr>listValue := Some (slice_to l (len l - 1))\<rparr>)\<rparr>) \<and>
      contents (snd (Pop s k)) (slice_to l (len l - 1)) = xs"
    if h: "items s k = Some it" "Type it = ''list''" "listValue it = Some l" "valid s l"
      "contents s l = xs @ [x]"
  proof -
    have n: "len l = Suc (length xs)" using length_contents [OF h(4)] h(5) by simp
    then have "contents s l ! (len l - 1) = x" using h(5) by simp
    moreover have "contents s (slice_to l (len l - 1)) = xs"
      using n h(5) by (simp add: contents_slice_to)
    ultimately show ?thesis using h n by (simp add: Pop_def checkkey_def)
  qed
  have 2: "Pop s k = (Inl EmptyList, s)"
    if "items s k = Some it" "Type it = ''list''"
      "listValue it = None \<or> (listValue it = Some l \<and> len l = 0)"
    using that by (auto simp: Pop_def checkkey_def)
  have 3: "Pop s k = (Inl (KeyNotFound k), s)" if "items s k = None"
    using that by (simp add: Pop_def checkkey_def)
  from 1 2 3 show ?thesis by blast
qed

theorem Pop_lifo_witness:
  "Pop sample_store ''b'' =
     (Inr ''y'', sample_store\<lparr>items := (items sample_store)(''b'' \<mapsto>
        \<lparr>stringValue = [], listValue = Some (slice_to sample_list 1),
           mapValue = None, Type = ''list''\<rparr>)\<rparr>) \<and>
   contents (snd (Pop sample_store ''b'')) (slice_to sample_list 1) = [''x''] \<and>
   Pop sample_store ''e'' = (Inl EmptyList, sample_store) \<and>
   Pop sample_store ''d'' = (Inl (KeyNotFound ''d''), sample_store)"
proof -
  let ?b = "\<lparr>stringValue = [], listValue = Some sample_list, mapValue = None, Type = ''list''\<rparr>"
  have b: "items sample_store ''b'' = Some ?b \<and> Type ?b = ''list'' \<and>
      listValue ?b = Some sample_list \<and>
      valid sample_store sample_list \<and> contents sample_store sample_list = [''x''] @ [''y'']"
    by (simp add: sample_store_items sample_store_contents)
  obtain le where e: "items sample_store ''e'' =
      Some \<lparr>stringValue = [], listValue = Some le, mapValue = None, Type = ''list''\<rparr>"
    and le: "len le = 0"
    using sample_store_e by blast
  let ?e = "\<lparr>stringValue = [], listValue = Some le, mapValue = None, Type = ''list''\<rparr>"
  have e': "items sample_store ''e'' = Some ?e \<and> Type ?e = ''list'' \<and>
      (listValue ?e = None \<or> (listValue ?e = Some le \<and> len le = 0))"
    using e le by simp
  have pb: "Pop sample_store ''b'' =
      (Inr ''y'', sample_store\<lparr>items := (items sample_store)(''b'' \<mapsto>
         ?b\<lparr>listValue := Some (slice_to sample_list (len sample_list - 1))\<rparr>)\<rparr>) \<and>
      contents (snd (Pop sample_store ''b'')) (slice_to sample_list (len sample_list - 1)) =
        [''x'']"
    using b Pop_lifo [of sample_store "''b''" ?b sample_list "[''x'']" "''y''"] by blast
  have pe: "Pop sample_store ''e'' = (Inl EmptyList, sample_store)"
    using e' Pop_lifo [of sample_store "''e''" ?e le] by blast
  have pd: "Pop sample_store ''d'' = (Inl (KeyNotFound ''d''), sample_store)"
    using sample_store_items(3) Pop_lifo [of sample_store "''d''"] by blast
  have n: "len sample_list - 1 = 1" by (simp add: sample_store_contents(4))
  from pb have pb1: "Pop sample_store ''b'' =
      (Inr ''y'', sample_store\<lparr>items := (items sample_store)(''b'' \<mapsto>
         ?b\<lparr>listValue := Some (slice_to sample_list 1)\<rparr>)\<rparr>)"
    and pb2: "contents (snd (Pop sample_store ''b'')) (slice_to sample_list 1) = [''x'']"
    unfolding n by blast+
  from pb1 have "Pop sample_store ''b'' =
     (Inr ''y'', sample_store\<lparr>items := (items sample_store)(''b'' \<mapsto>
        \<lparr>stringValue = [], listValue = Some (slice_to sample_list 1),
           mapValue = None, Type = ''list''\<rparr>)\<rparr>)"
    by simp
  with pb2 pe pd show ?thesis by blast
qed




text \<open>
  C8, as stated: \<open>GetIndex("*")\<close> returns the full index already sorted ascending. It
  fails in the state after \<open>aliased_ops\<close>: the call returns the index, which reads
  \<open>[zzz, b, k]\<close>.
\<close>

theorem GetIndex_wildcard_counterexample:
  "fst (GetIndex aliased_store ''*'') = Inr (index aliased_store) \<and>
   contents aliased_store (index aliased_store) = [''zzz'', ''b'', ''k''] \<and>
   \<not> sorted (contents aliased_store (index aliased_store))"
  by (simp add: GetIndex_def aliased_store_contents)

text \<open>
  C8, amended: \<open>GetIndex\<close> on the pattern \<open>*\<close> returns the whole index (the index slice
  itself), which is sorted ascending in a store whose index is the sorted list of its
  keys. On any other pattern with a \<open>*\<close> it returns a new slice of the keys of the
  index that the pattern matches, in the order of the index (the index filtered by the
  matcher), so the result is ascending too; the store is left as it was. The matcher is
  the spec's: \<open>*\<close> stands for any run of zero or more characters, every other character
  for itself, and the whole key has to be matched. The index is the sorted list of the
  keys in every store reached by a sequence of operations that hands \<open>Set\<close> no slice
  sharing the backing array of the index.
\<close>

theorem GetIndex_wildcard:
  "GetIndex s ''*'' = (Inr (index s), s) \<and>
   (CHR ''*'' \<in> set pat \<and> pat \<noteq> ''*'' \<and> valid s (index s) \<longrightarrow>
      (\<exists>r s'. GetIndex s pat = (Inr r, s') \<and>
         contents s' r = filter (Glob pat) (contents s (index s)) \<and>
         items s' = items s \<and> index s' = index s \<and>
         contents s' (index s') = contents s (index s))) \<and>
   (Glob pat key \<longleftrightarrow> glob_matches pat key) \<and>
   (index_inv s \<longrightarrow>
      sorted (contents s (index s)) \<and> distinct (contents s (index s)) \<and>
      sorted (filter (Glob pat) (contents s (index s)))) \<and>
   (all_unshared (New g) ops \<longrightarrow>
      valid (run g ops) (index (run g ops)) \<and> index_inv (run g ops))"
proof -
  have 1: "GetIndex s ''*'' = (Inr (index s), s)" by (simp add: GetIndex_def)
  have 2: "\<exists>r s'. GetIndex s pat = (Inr r, s') \<and>
         contents s' r = filter (Glob pat) (contents s (index s)) \<and>
         items s' = items s \<and> index s' = index s \<and>
         contents s' (index s') = contents s (index s)"
    if h: "CHR ''*'' \<in> set pat" "pat \<noteq> ''*''" "valid s (index s)"
  proof -
    have ns: "length (Split pat (CHR ''*'')) \<noteq> 1"
      using h(1) Split_single [of pat "CHR ''*''"] by simp
    obtain res s1 where al: "alloc s [] = (res, s1)" by fastforce
    note a = alloc_facts [OF al]
    obtain r s2 where co: "collect s1 res pat (contents s1 (index s1)) = (r, s2)"
      by fastforce
    have c1: "contents s1 (index s1) = contents s (index s)"
      using extends_except_contents [OF a(4) h(3), of "{}"] a(6) by simp
    have "0 \<le> arr res" by simp
    note c = collect_facts [OF a(1) this co]
    have g: "GetIndex s pat = (Inr r, s2)"
      using h(2) ns al co by (simp add: GetIndex_def Let_def)
    note f = GetIndex_facts [OF g]
    have "contents s2 (index s) = contents s (index s)"
      using extends_except_contents [OF f(1) h(3)] by simp
    with g c c1 a(2) f show ?thesis by simp
  qed
  have 3: "sorted (contents s (index s)) \<and> distinct (contents s (index s))" if "index_inv s"
    using that by (simp add: index_inv_def strict_sorted_iff)
  then have 4: "sorted (filter (Glob pat) (contents s (index s)))" if "index_inv s"
    using that by (simp add: sorted_wrt_filter)
  show ?thesis using 1 2 3 4 Glob_iff [of pat key] run_inv [of g ops] by blast
qed

theorem GetIndex_wildcard_witness:
  "all_unshared (New doubling) glob_ops \<and>
   valid glob_store (index glob_store) \<and> index_inv glob_store \<and>
   fst (GetIndex glob_store ''*'') = Inr (index glob_store) \<and>
   contents glob_store (index glob_store) =
     [''aaa'', ''aaa:bbb:ccc'', ''abc'', ''ccc:aaa:bbb''] \<and>
   (\<exists>r s'. GetIndex glob_store ''a*'' = (Inr r, s') \<and>
      contents s' r = [''aaa'', ''aaa:bbb:ccc'', ''abc'']) \<and>
   (\<exists>r s'. GetIndex glob_store ''*ccc*'' = (Inr r, s') \<and>
      contents s' r = [''aaa:bbb:ccc'', ''ccc:aaa:bbb'']) \<and>
   (\<exists>r s'. GetIndex glob_store ''*d*'' = (Inr r, s') \<and> contents s' r = []) \<and>
   sorted [''aaa'', ''aaa:bbb:ccc'', ''abc'', ''ccc:aaa:bbb'']"
proof -
  have u: "all_unshared (New doubling) glob_ops" by (simp add: glob_ops_def)
  have inv: "valid glob_store (index glob_store) \<and> index_inv glob_store"
    using run_inv [OF u] by (simp add: glob_store_def)
  note t = GetIndex_wildcard [where s = glob_store and key = "[]" and g = doubling
      and ops = glob_ops]
  have a: "\<exists>r s'. GetIndex glob_store ''a*'' = (Inr r, s') \<and>
      contents s' r = filter (Glob ''a*'') (contents glob_store (index glob_store))"
    using t [where pat = "''a*''"] inv by simp blast
  have b: "\<exists>r s'. GetIndex glob_store ''*ccc*'' = (Inr r, s') \<and>
      contents s' r = filter (Glob ''*ccc*'') (contents glob_store (index glob_store))"
    using t [where pat = "''*ccc*''"] inv by simp blast
  have c: "\<exists>r s'. GetIndex glob_store ''*d*'' = (Inr r, s') \<and>
      contents s' r = filter (Glob ''*d*'') (contents glob_store (index glob_store))"
    using t [where pat = "''*d*''"] inv by simp blast
  have s: "fst (GetIndex glob_store ''*'') = Inr (index glob_store)"
    using t [where pat = "[]"] by simp
  have so: "sorted (contents glob_store (index glob_store))"
    using t [where pat = "[]"] inv by blast
  from u inv s so a b c show ?thesis by (simp add: glob_store_index)
qed

text \<open>
  C9, as stated: \<open>Delete\<close> of a present key removes it from the mapping and from the
  index. It fails in the state after \<open>aliased_ops\<close>, whose index \<open>[zzz, b, k]\<close> is not
  sorted: the binary search for \<open>b\<close> ends at \<open>zzz\<close>, so \<open>b\<close> leaves the mapping and
  stays in the index.
\<close>

theorem Delete_total_counterexample:
  "items aliased_store ''b'' \<noteq> None \<and>
   items (Delete aliased_store ''b'') ''b'' = None \<and>
   ''b'' \<in> set (contents (Delete aliased_store ''b'') (index (Delete aliased_store ''b'')))"
  by (simp add: aliased_store_def aliased_ops_def leak_ops_def leaked_index_def eval_defs)

text \<open>
  C9, amended: \<open>Delete\<close> is total and returns no error. The key is removed from the
  mapping; on an absent key the state is returned as it was; in a store whose index is
  the sorted list of its keys the key is removed from the index as well, the other keys
  stay in their order, and the index is the sorted list of the keys again. The index is
  the sorted list of the keys in every store reached by a sequence of operations that
  hands \<open>Set\<close> no slice sharing the backing array of the index.
\<close>

theorem Delete_total:
  "items (Delete s k) = (items s)(k := None) \<and>
   (items s k = None \<longrightarrow> Delete s k = s) \<and>
   (valid s (index s) \<and> index_inv s \<longrightarrow>
      k \<notin> dom (items (Delete s k)) \<and>
      k \<notin> set (contents (Delete s k) (index (Delete s k))) \<and>
      contents (Delete s k) (index (Delete s k)) = filter (\<lambda>x. x \<noteq> k) (contents s (index s)) \<and>
      valid (Delete s k) (index (Delete s k)) \<and> index_inv (Delete s k)) \<and>
   (all_unshared (New g) ops \<longrightarrow>
      valid (run g ops) (index (run g ops)) \<and> index_inv (run g ops))"
proof -
  have 1: "items (Delete s k) = (items s)(k := None)"
    by (simp add: Delete_def Let_def updateIndex_fields)
  have 2: "Delete s k = s" if "items s k = None"
  proof -
    from that have "(items s)(k := None) = items s" by auto
    with that show ?thesis by (simp add: Delete_def)
  qed
  have 3: "contents (Delete s k) (index (Delete s k)) =
        filter (\<lambda>x. x \<noteq> k) (contents s (index s)) \<and>
      valid (Delete s k) (index (Delete s k))"
    if h: "valid s (index s)" "index_inv s"
  proof (cases "items s k")
    case None
    with h have "k \<notin> set (contents s (index s))" by (auto simp: index_inv_def)
    then have "filter (\<lambda>x. x \<noteq> k) (contents s (index s)) = contents s (index s)"
      by (rule filter_absent)
    with 2 [OF None] h(1) show ?thesis by simp
  next
    case (Some i)
    from h have so: "sorted_wrt (<) (contents s (index s))" by (simp add: index_inv_def)
    note u = updateIndex_facts [OF h(1), of k False]
    from u(1,2) updated_keys_remove [OF so, of k] Some show ?thesis
      by (simp add: Delete_def Let_def)
  qed
  have 4: "index_inv (Delete s k)" if h: "valid s (index s)" "index_inv s"
    using 3 [OF h] 1 h(2) by (auto simp: index_inv_def sorted_wrt_filter)
  show ?thesis using 1 2 3 4 run_inv [of g ops] by auto
qed

theorem Delete_total_witness:
  "all_unshared (New doubling) sample_ops \<and>
   valid sample_store (index sample_store) \<and> index_inv sample_store \<and>
   items (Delete sample_store ''b'') ''b'' = None \<and>
   contents (Delete sample_store ''b'') (index (Delete sample_store ''b'')) = [''a'', ''e''] \<and>
   items sample_store ''z'' = None \<and>
   Delete sample_store ''z'' = sample_store"
proof -
  have inv: "valid sample_store (index sample_store) \<and> index_inv sample_store"
    using run_inv [OF sample_unshared] by (simp add: sample_store_def)
  show ?thesis
    using sample_unshared inv sample_store_items(4) sample_store_contents(1)
      Delete_total [of sample_store "''b''"] Delete_total [of sample_store "''z''"]
    by simp
qed

text \<open>
  C10. A successful \<open>Pop\<close> on an existing list-typed key \<open>k\<close> never removes the key: the
  item at \<open>k\<close> is the old item with the list cut by its last element (possibly to the
  empty list), still list-typed; every other key, the key set, the index and the memory
  are unchanged, so \<open>k\<close> stays in the index.
\<close>

theorem Pop_keeps_key:
  assumes "items s k = Some it" and "Type it = ''list''" and "Pop s k = (Inr x, s')"
  shows "\<exists>l. listValue it = Some l \<and> 0 < len l \<and>
           s' = s\<lparr>items := (items s)(k \<mapsto> it\<lparr>listValue := Some (slice_to l (len l - 1))\<rparr>)\<rparr> \<and>
           items s' k = Some (it\<lparr>listValue := Some (slice_to l (len l - 1))\<rparr>) \<and>
           Type (it\<lparr>listValue := Some (slice_to l (len l - 1))\<rparr>) = ''list'' \<and>
           (valid s l \<longrightarrow>
              x = last (contents s l) \<and>
              contents s' (slice_to l (len l - 1)) = butlast (contents s l)) \<and>
           (\<forall>k'. k' \<noteq> k \<longrightarrow> items s' k' = items s k') \<and>
           dom (items s') = dom (items s) \<and>
           index s' = index s \<and> arrays s' = arrays s \<and> hmaps s' = hmaps s \<and>
           contents s' (index s') = contents s (index s) \<and>
           (k \<in> set (contents s (index s)) \<longrightarrow> k \<in> set (contents s' (index s'))) \<and>
           (index_inv s \<longrightarrow> index_inv s' \<and> k \<in> set (contents s' (index s')))"
proof -
  obtain l where l: "listValue it = Some l" "0 < len l"
    using assms by (auto simp: Pop_def checkkey_def split: option.splits if_splits)
  have x: "x = contents s l ! (len l - 1)"
    and s': "s' = s\<lparr>items := (items s)(k \<mapsto> it\<lparr>listValue := Some (slice_to l (len l - 1))\<rparr>)\<rparr>"
    using assms l by (auto simp: Pop_def checkkey_def)
  have vl: "x = last (contents s l) \<and>
      contents s' (slice_to l (len l - 1)) = butlast (contents s l)" if "valid s l"
  proof -
    have n: "length (contents s l) = len l" using that by (rule length_contents)
    with l(2) have "contents s l \<noteq> []" by auto
    then have "last (contents s l) = contents s l ! (len l - 1)"
      using n by (simp add: last_conv_nth)
    moreover have "butlast (contents s l) = take (len l - 1) (contents s l)"
      using n by (simp add: butlast_conv_take)
    ultimately show ?thesis using x by (simp add: s' contents_slice_to)
  qed
  have d: "dom (items s') = dom (items s)" using assms(1) by (auto simp: s')
  have inv: "index_inv s' \<and> k \<in> set (contents s' (index s'))" if "index_inv s"
    using that assms(1) d by (auto simp: index_inv_def s')
  have rest: "index s' = index s" "arrays s' = arrays s" "hmaps s' = hmaps s"
    "contents s' (index s') = contents s (index s)"
    "\<forall>k'. k' \<noteq> k \<longrightarrow> items s' k' = items s k'"
    "items s' k = Some (it\<lparr>listValue := Some (slice_to l (len l - 1))\<rparr>)"
    by (simp_all add: s')
  show ?thesis
    using l s' vl d inv rest assms(2) by (intro exI [of _ l]) simp
qed

theorem Pop_keeps_key_witness:
  "items (snd (Pop sample_store ''b'')) ''b'' =
     Some \<lparr>stringValue = [], listValue = Some (slice_to sample_list 1),
       mapValue = None, Type = ''list''\<rparr> \<and>
   contents (snd (Pop sample_store ''b'')) (slice_to sample_list 1) = [''x''] \<and>
   index_inv (snd (Pop sample_store ''b'')) \<and>
   fst (Pop (snd (Pop sample_store ''b'')) ''b'') = Inr ''x'' \<and>
   items (snd (Pop (snd (Pop sample_store ''b'')) ''b'')) ''b'' =
     Some \<lparr>stringValue = [], listValue = Some (slice_to (slice_to sample_list 1) 0),
       mapValue = None, Type = ''list''\<rparr> \<and>
   contents (snd (Pop (snd (Pop sample_store ''b'')) ''b''))
     (slice_to (slice_to sample_list 1) 0) = [] \<and>
   contents (snd (Pop (snd (Pop sample_store ''b'')) ''b''))
     (index (snd (Pop (snd (Pop sample_store ''b'')) ''b''))) = [''a'', ''b'', ''e''] \<and>
   ''b'' \<in> set (contents (snd (Pop (snd (Pop sample_store ''b'')) ''b''))
     (index (snd (Pop (snd (Pop sample_store ''b'')) ''b'')))) \<and>
   index_inv (snd (Pop (snd (Pop sample_store ''b'')) ''b''))"
proof -
  let ?s = "snd (Pop sample_store ''b'')"
  let ?l = "slice_to sample_list 1"
  let ?it = "\<lparr>stringValue = [], listValue = Some ?l, mapValue = None, Type = ''list''\<rparr>"
  let ?s' = "snd (Pop ?s ''b'')"
  have ln: "len ?l = 1" by (simp add: slice_to_def)
  have p1: "?s = sample_store\<lparr>items := (items sample_store)(''b'' \<mapsto> ?it)\<rparr>"
    by (simp add: Pop_def checkkey_def sample_store_items sample_store_contents(4))
  have a: "items ?s ''b'' = Some ?it" by (simp add: p1)
  have b: "Type ?it = ''list''" by simp
  have c1: "contents ?s ?l = [''x'']"
    by (simp add: p1 contents_slice_to sample_store_contents)
  have r: "fst (Pop ?s ''b'') = Inr ''x''"
    unfolding p1 using c1 [unfolded p1] by (simp add: Pop_def checkkey_def slice_to_def)
  have c: "Pop ?s ''b'' = (Inr ''x'', ?s')"
    by (rule prod_eqI) (simp_all add: r)
  have inv: "index_inv ?s"
    using good_index [OF good_Pop [OF good_sample, of "''b''"]] by simp
  have i: "contents ?s (index ?s) = [''a'', ''b'', ''e'']"
    by (simp add: p1 sample_store_contents)
  from Pop_keeps_key [OF a b c] obtain l where
    l: "listValue ?it = Some l"
    and it': "items ?s' ''b'' = Some (?it\<lparr>listValue := Some (slice_to l (len l - 1))\<rparr>)"
    and ix: "contents ?s' (index ?s') = contents ?s (index ?s)"
    and iv: "index_inv ?s \<longrightarrow> index_inv ?s' \<and> ''b'' \<in> set (contents ?s' (index ?s'))"
    by blast
  from l have le: "l = ?l" by simp
  have it'': "items ?s' ''b'' =
      Some \<lparr>stringValue = [], listValue = Some (slice_to ?l 0), mapValue = None,
        Type = ''list''\<rparr>"
    using it' by (simp add: le slice_to_def)
  have c0: "contents ?s' (slice_to ?l 0) = []"
    by (simp add: contents_def slice_to_def)
  from a c1 inv r it'' c0 ix i iv show ?thesis by simp
qed

end
